theory Spec2Isabelle
  imports Complex_Main "HOL-Library.Word" "HOL-Library.Signed_Division"
begin

section \<open>Numeric model\<close>

text \<open>
  The kernel of \<^verbatim>\<open>game_logic.c\<close> computes with C \<^verbatim>\<open>float\<close>, \<^verbatim>\<open>int\<close> and
  \<^verbatim>\<open>uint8_t\<close>.

  \<^item> A \<^verbatim>\<open>float\<close> is modelled as a \<^typ>\<open>real\<close>: arithmetic is exact, and rounding,
    infinities and NaN are outside the model. The properties below are structural
    (which branch is taken, what is stored where); the concrete inputs used in
    closed theorems keep every compared quantity away from its threshold, so
    that rounding does not change a branch.
  \<^item> An \<^verbatim>\<open>int\<close> is modelled as an \<^typ>\<open>int\<close>: the indices and counters of the source
    stay far below \<open>2^31\<close> for buffers that exist, so wrap-around never happens.
  \<^item> A \<^verbatim>\<open>uint8_t\<close> is an \<^typ>\<open>8 word\<close>.
  \<^item> A pointer to a buffer is modelled as the memory it points to, a function from
    the (integer) index to the element stored there.
  \<^item> The two operations of the source whose result C leaves undefined on inputs a
    caller can supply (the integer remainder by zero, and the conversion to \<^verbatim>\<open>int\<close>
    of a quotient by zero) are branches of the model that return a \<open>fault\<close>.
\<close>

datatype fault = Integer_Division_By_Zero | Non_Finite_Conversion

type_synonym byte = "8 word"

text \<open>
  The conversion \<^verbatim>\<open>(int)f\<close> of a float truncates toward zero. The source leaves it
  undefined when the truncated value does not fit into 32 bits; the model has no
  such limit.
\<close>

definition float_to_int :: "real \<Rightarrow> int" where
  "float_to_int f = (if 0 \<le> f then \<lfloor>f\<rfloor> else \<lceil>f\<rceil>)"

section \<open>Obstacle registry\<close>

definition MAX_OBSTACLES :: int where
  "MAX_OBSTACLES = 10000"

definition MAX_PROCESSED :: nat where
  "MAX_PROCESSED = 20000"

record Obstacle =
  obs_x :: real
  obs_y :: real
  obs_radius :: real
  obs_height :: real
  obs_id :: int
  obs_type :: int

record ProcessedObstacle =
  p_obstacle_id :: int
  p_is_between :: int
  p_type :: int
  p_dx :: real
  p_dy :: real
  p_dist_sq :: real

text \<open>
  The module-level state: the array \<^verbatim>\<open>obstacles\<close> with its fill count
  \<^verbatim>\<open>obstacle_count\<close>, and the live prefix of the array \<^verbatim>\<open>processed\<close> (the entries
  below the local \<^verbatim>\<open>processed_count\<close> of the last visibility call; the entries
  above it are never read).
\<close>

record kernel =
  obstacles :: "int \<Rightarrow> Obstacle"
  obstacle_count :: int
  processed :: "ProcessedObstacle list"

definition zero_obstacle :: Obstacle where
  "zero_obstacle = \<lparr>obs_x = 0, obs_y = 0, obs_radius = 0, obs_height = 0, obs_id = 0, obs_type = 0\<rparr>"

definition init_obstacles :: "kernel \<Rightarrow> kernel" where
  "init_obstacles s = s\<lparr>obstacle_count := 0, obstacles := (\<lambda>_. zero_obstacle)\<rparr>"

text \<open>The record that one iteration of \<^verbatim>\<open>add_obstacles_batch\<close> reads at \<open>idx = i * 6\<close>.\<close>

definition read_obstacle :: "(int \<Rightarrow> real) \<Rightarrow> int \<Rightarrow> Obstacle" where
  "read_obstacle data idx =
     \<lparr>obs_x = data idx, obs_y = data (idx + 1), obs_radius = data (idx + 2),
      obs_height = data (idx + 3), obs_id = float_to_int (data (idx + 4)),
      obs_type = float_to_int (data (idx + 5))\<rparr>"

function add_obstacles_loop :: "(int \<Rightarrow> real) \<Rightarrow> int \<Rightarrow> int \<Rightarrow> int \<Rightarrow> kernel \<Rightarrow> int \<times> kernel" where
  "add_obstacles_loop data count i added s =
     (if i < count \<and> obstacle_count s < MAX_OBSTACLES then
        add_obstacles_loop data count (i + 1) (added + 1)
          (s\<lparr>obstacles := (obstacles s)(obstacle_count s := read_obstacle data (i * 6)),
             obstacle_count := obstacle_count s + 1\<rparr>)
      else (added, s))"
  by pat_completeness auto
termination
  by (relation "measure (\<lambda>(data, count, i, added, s). nat (count - i))") auto

declare add_obstacles_loop.simps [simp del]

definition add_obstacles_batch :: "(int \<Rightarrow> real) \<Rightarrow> int \<Rightarrow> kernel \<Rightarrow> int \<times> kernel" where
  "add_obstacles_batch data count s = add_obstacles_loop data count 0 0 s"

definition get_obstacle_count :: "kernel \<Rightarrow> int \<times> kernel" where
  "get_obstacle_count s = (obstacle_count s, s)"

section \<open>Collision detector\<close>

text \<open>
  The half-period wrap of one displacement component, written inline in the source
  (\<^verbatim>\<open>if (d > half) d -= period; else if (d < -half) d += period;\<close>).
\<close>

definition wrap_half :: "real \<Rightarrow> real \<Rightarrow> real \<Rightarrow> real" where
  "wrap_half d half period = (if d > half then d - period else if d < - half then d + period else d)"

text \<open>The test of one obstacle that is not flown over (the loop body after the \<^verbatim>\<open>continue\<close>).\<close>

definition obstacle_hit :: "Obstacle \<Rightarrow> real \<Rightarrow> real \<Rightarrow> real \<Rightarrow> real \<Rightarrow> real \<Rightarrow> bool" where
  "obstacle_hit obs player_radius new_x new_y map_width map_height =
     (let half_map_w = map_width / 2; half_map_h = map_height / 2;
          dx = wrap_half (new_x - obs_x obs) half_map_w map_width;
          dy = wrap_half (new_y - obs_y obs) half_map_h map_height;
          dist_sq = dx * dx + dy * dy;
          combined_radius = obs_radius obs + player_radius
      in dist_sq < combined_radius * combined_radius)"

function check_collision_loop ::
  "kernel \<Rightarrow> real \<Rightarrow> real \<Rightarrow> real \<Rightarrow> real \<Rightarrow> real \<Rightarrow> real \<Rightarrow> int \<Rightarrow> int" where
  "check_collision_loop s player_radius player_height new_x new_y map_width map_height i =
     (if i < obstacle_count s then
        (if player_height \<ge> obs_height (obstacles s i) then
           check_collision_loop s player_radius player_height new_x new_y map_width map_height (i + 1)
         else if obstacle_hit (obstacles s i) player_radius new_x new_y map_width map_height then 1
         else check_collision_loop s player_radius player_height new_x new_y map_width map_height (i + 1))
      else 0)"
  by pat_completeness auto
termination
  by (relation "measure (\<lambda>(s, pr, ph, nx, ny, mw, mh, i). nat (obstacle_count s - i))") auto

declare check_collision_loop.simps [simp del]

definition check_collision ::
  "real \<Rightarrow> real \<Rightarrow> real \<Rightarrow> real \<Rightarrow> real \<Rightarrow> real \<Rightarrow> real \<Rightarrow> real \<Rightarrow> kernel \<Rightarrow> int \<times> kernel" where
  "check_collision player_x player_y player_radius player_height new_x new_y map_width map_height s =
     (check_collision_loop s player_radius player_height new_x new_y map_width map_height 0, s)"

section \<open>Obstacle visibility processor\<close>

text \<open>
  The constant \<^verbatim>\<open>M_PI\<close> of the source is the double nearest to \<open>\<pi>\<close>; in exact
  arithmetic it is \<open>\<pi>\<close>. The library functions \<^verbatim>\<open>cosf\<close>, \<^verbatim>\<open>sinf\<close>, \<^verbatim>\<open>fabsf\<close> and
  \<^verbatim>\<open>ceilf\<close> are the real functions \<^const>\<open>cos\<close>, \<^const>\<open>sin\<close>, \<^const>\<open>abs\<close> and
  \<^const>\<open>ceiling\<close>, and \<^verbatim>\<open>atan2f\<close> is the angle of the point \<open>(x, y)\<close> in \<open>(-\<pi>, \<pi>]\<close>.
\<close>

definition M_PI :: real where
  "M_PI = pi"

definition atan2f :: "real \<Rightarrow> real \<Rightarrow> real" where
  "atan2f y x =
     (if 0 < x then arctan (y / x)
      else if x < 0 then (if 0 \<le> y then arctan (y / x) + pi else arctan (y / x) - pi)
      else if 0 < y then pi / 2
      else if y < 0 then - (pi / 2)
      else 0)"

text \<open>
  The parameters and locals of \<^verbatim>\<open>process_visible_obstacles\<close> that stay fixed while
  the obstacles are scanned.
\<close>

record view =
  v_camera_x :: real
  v_camera_y :: real
  v_camera_angle :: real
  v_player_height :: real
  v_half_fov :: real
  v_cos_a :: real
  v_sin_a :: real
  v_player_t :: real
  v_max_render_distance :: real
  v_map_width :: real
  v_map_height :: real

text \<open>
  The body of the innermost loop, for the image of \<open>obs\<close> at tile offset \<open>(tx, ty)\<close>.
  The list \<open>acc\<close> is \<^verbatim>\<open>processed[0 .. processed_count - 1]\<close>. The result \<open>Inl\<close> is the
  jump \<^verbatim>\<open>goto sort_and_return\<close>, \<open>Inr\<close> the normal end of the iteration.
\<close>

definition visit_image ::
  "view \<Rightarrow> Obstacle \<Rightarrow> int \<Rightarrow> int \<Rightarrow> ProcessedObstacle list \<Rightarrow> ProcessedObstacle list + ProcessedObstacle list" where
  "visit_image v obs tx ty acc =
     (let dx = (obs_x obs + real_of_int tx * v_map_width v) - v_camera_x v;
          dy = (obs_y obs + real_of_int ty * v_map_height v) - v_camera_y v;
          dist_sq = dx * dx + dy * dy
      in if dist_sq < v_max_render_distance v * v_max_render_distance v then
           (let angle_to_obstacle = atan2f dy dx;
                angle_diff0 = \<bar>angle_to_obstacle - v_camera_angle v\<bar>;
                angle_diff = (if angle_diff0 > M_PI then 2 * M_PI - angle_diff0 else angle_diff0)
            in if angle_diff \<le> v_half_fov v + 0.5 then
                 (let obstacle_t = dx * v_cos_a v + dy * v_sin_a v;
                      is_between_camera_and_player =
                        (if v_player_height v < obs_height obs \<and> obstacle_t > 0.5 \<and> obstacle_t < v_player_t v
                         then 1 else 0)
                  in if obstacle_t > 0.5 then
                       (if length acc \<ge> MAX_PROCESSED then Inl acc
                        else Inr (acc @ [\<lparr>p_obstacle_id = obs_id obs,
                                          p_is_between = is_between_camera_and_player,
                                          p_type = obs_type obs,
                                          p_dx = dx, p_dy = dy, p_dist_sq = dist_sq\<rparr>]))
                     else Inr acc)
               else Inr acc)
         else Inr acc)"

function scan_ty ::
  "view \<Rightarrow> Obstacle \<Rightarrow> int \<Rightarrow> int \<Rightarrow> int \<Rightarrow> ProcessedObstacle list \<Rightarrow> ProcessedObstacle list + ProcessedObstacle list" where
  "scan_ty v obs tx tiles_y ty acc =
     (if ty \<le> tiles_y then
        (case visit_image v obs tx ty acc of
           Inl full \<Rightarrow> Inl full
         | Inr acc' \<Rightarrow> scan_ty v obs tx tiles_y (ty + 1) acc')
      else Inr acc)"
  by pat_completeness auto
termination
  by (relation "measure (\<lambda>(v, obs, tx, tiles_y, ty, acc). nat (tiles_y + 1 - ty))") auto

function scan_tx ::
  "view \<Rightarrow> Obstacle \<Rightarrow> int \<Rightarrow> int \<Rightarrow> int \<Rightarrow> ProcessedObstacle list \<Rightarrow> ProcessedObstacle list + ProcessedObstacle list" where
  "scan_tx v obs tiles_x tiles_y tx acc =
     (if tx \<le> tiles_x then
        (case scan_ty v obs tx tiles_y (- tiles_y) acc of
           Inl full \<Rightarrow> Inl full
         | Inr acc' \<Rightarrow> scan_tx v obs tiles_x tiles_y (tx + 1) acc')
      else Inr acc)"
  by pat_completeness auto
termination
  by (relation "measure (\<lambda>(v, obs, tiles_x, tiles_y, tx, acc). nat (tiles_x + 1 - tx))") auto

text \<open>
  \<^verbatim>\<open>(int)ceilf(search_radius / map_dimension)\<close>. For a map dimension of zero the
  quotient is infinite or NaN and its conversion to \<^verbatim>\<open>int\<close> is undefined.
\<close>

definition tiles :: "real \<Rightarrow> real \<Rightarrow> fault + int" where
  "tiles search_radius map_dimension =
     (if map_dimension = 0 then Inl Non_Finite_Conversion else Inr \<lceil>search_radius / map_dimension\<rceil>)"

text \<open>
  The loop over the obstacles. Both ways out of it (the end of the loop and the jump
  to \<^verbatim>\<open>sort_and_return\<close>) continue at the sort with the records collected so far.
\<close>

function scan_obstacles ::
  "view \<Rightarrow> real \<Rightarrow> kernel \<Rightarrow> int \<Rightarrow> ProcessedObstacle list \<Rightarrow> fault + ProcessedObstacle list" where
  "scan_obstacles v search_radius s i acc =
     (if i < obstacle_count s then
        (case tiles search_radius (v_map_width v) of
           Inl f \<Rightarrow> Inl f
         | Inr tiles_x \<Rightarrow>
            (case tiles search_radius (v_map_height v) of
               Inl f \<Rightarrow> Inl f
             | Inr tiles_y \<Rightarrow>
                (case scan_tx v (obstacles s i) tiles_x tiles_y (- tiles_x) acc of
                   Inl full \<Rightarrow> Inr full
                 | Inr acc' \<Rightarrow> scan_obstacles v search_radius s (i + 1) acc')))
      else Inr acc)"
  by pat_completeness auto
termination
  by (relation "measure (\<lambda>(v, search_radius, s, i, acc). nat (obstacle_count s - i))") auto

text \<open>
  The bubble sort at \<^verbatim>\<open>sort_and_return\<close>, on the live prefix of \<^verbatim>\<open>processed\<close>, whose
  length is \<^verbatim>\<open>processed_count\<close>. The counters are natural numbers here: the bound
  \<^verbatim>\<open>processed_count - 1\<close> of the outer loop is \<open>-1\<close> in C for an empty list and \<open>0\<close>
  here, and no \<open>i \<ge> 0\<close> is below either; inside the outer loop \<open>i < processed_count - 1\<close>,
  so \<^verbatim>\<open>processed_count - i - 1\<close> is positive.
\<close>

function bubble_inner :: "nat \<Rightarrow> nat \<Rightarrow> ProcessedObstacle list \<Rightarrow> ProcessedObstacle list" where
  "bubble_inner bound j xs =
     (if j < bound then
        bubble_inner bound (j + 1)
          (if p_dist_sq (xs ! j) < p_dist_sq (xs ! (j + 1))
           then xs[j := xs ! (j + 1), j + 1 := xs ! j] else xs)
      else xs)"
  by pat_completeness auto
termination
  by (relation "measure (\<lambda>(bound, j, xs). bound - j)") auto

function bubble_outer :: "nat \<Rightarrow> nat \<Rightarrow> ProcessedObstacle list \<Rightarrow> ProcessedObstacle list" where
  "bubble_outer processed_count i xs =
     (if i < processed_count - 1 then
        bubble_outer processed_count (i + 1) (bubble_inner (processed_count - i - 1) 0 xs)
      else xs)"
  by pat_completeness auto
termination
  by (relation "measure (\<lambda>(processed_count, i, xs). processed_count - 1 - i)") auto

definition bubble_sort :: "ProcessedObstacle list \<Rightarrow> ProcessedObstacle list" where
  "bubble_sort xs = bubble_outer (length xs) 0 xs"

text \<open>The loop that writes the flat 6-tuples to \<^verbatim>\<open>output_buffer\<close>.\<close>

function write_output :: "ProcessedObstacle list \<Rightarrow> nat \<Rightarrow> (int \<Rightarrow> real) \<Rightarrow> (int \<Rightarrow> real)" where
  "write_output xs i output_buffer =
     (if i < length xs then
        (let idx = int i * 6
         in write_output xs (i + 1)
              (output_buffer
                 (idx := real_of_int (p_obstacle_id (xs ! i)),
                  idx + 1 := p_dx (xs ! i),
                  idx + 2 := p_dy (xs ! i),
                  idx + 3 := p_dist_sq (xs ! i),
                  idx + 4 := real_of_int (p_is_between (xs ! i)),
                  idx + 5 := real_of_int (p_type (xs ! i)))))
      else output_buffer)"
  by pat_completeness auto
termination
  by (relation "measure (\<lambda>(xs, i, output_buffer). length xs - i)") auto

declare scan_ty.simps [simp del] scan_tx.simps [simp del] scan_obstacles.simps [simp del]
  bubble_inner.simps [simp del] bubble_outer.simps [simp del] write_output.simps [simp del]

text \<open>The locals computed before the scan.\<close>

definition make_view ::
  "real \<Rightarrow> real \<Rightarrow> real \<Rightarrow> real \<Rightarrow> real \<Rightarrow> real \<Rightarrow> real \<Rightarrow> real \<Rightarrow> real \<Rightarrow> real \<Rightarrow> view" where
  "make_view camera_x camera_y camera_angle player_x player_y player_height fov max_render_distance
             map_width map_height =
     (let half_fov = fov / 2;
          cos_a = cos camera_angle; sin_a = sin camera_angle;
          half_map_w = map_width / 2; half_map_h = map_height / 2;
          player_dx_wrapped = wrap_half (player_x - camera_x) half_map_w map_width;
          player_dy_wrapped = wrap_half (player_y - camera_y) half_map_h map_height;
          player_t = player_dx_wrapped * cos_a + player_dy_wrapped * sin_a
      in \<lparr>v_camera_x = camera_x, v_camera_y = camera_y, v_camera_angle = camera_angle,
          v_player_height = player_height, v_half_fov = half_fov, v_cos_a = cos_a, v_sin_a = sin_a,
          v_player_t = player_t, v_max_render_distance = max_render_distance,
          v_map_width = map_width, v_map_height = map_height\<rparr>)"

text \<open>
  The records in \<^verbatim>\<open>processed\<close> when control reaches \<^verbatim>\<open>sort_and_return\<close>, in the order
  in which the scan inserted them.
\<close>

definition collect_visible ::
  "real \<Rightarrow> real \<Rightarrow> real \<Rightarrow> real \<Rightarrow> real \<Rightarrow> real \<Rightarrow> real \<Rightarrow> real \<Rightarrow> real \<Rightarrow> real \<Rightarrow> kernel
     \<Rightarrow> fault + ProcessedObstacle list" where
  "collect_visible camera_x camera_y camera_angle player_x player_y player_height fov max_render_distance
                   map_width map_height s =
     (let search_radius = max_render_distance * 1.2
      in scan_obstacles
           (make_view camera_x camera_y camera_angle player_x player_y player_height fov
              max_render_distance map_width map_height)
           search_radius s 0 [])"

text \<open>
  \<^verbatim>\<open>process_visible_obstacles\<close>. The output buffer is \<open>None\<close> for a null pointer. The
  result is the returned count, the output buffer and the module state after the
  call. The diagnostic \<^verbatim>\<open>printf\<close> calls are not modelled.
\<close>

definition process_visible_obstacles ::
  "real \<Rightarrow> real \<Rightarrow> real \<Rightarrow> real \<Rightarrow> real \<Rightarrow> real \<Rightarrow> real \<Rightarrow> real \<Rightarrow> real \<Rightarrow> real \<Rightarrow> real
     \<Rightarrow> (int \<Rightarrow> real) option \<Rightarrow> kernel \<Rightarrow> fault + (int \<times> (int \<Rightarrow> real) option \<times> kernel)" where
  "process_visible_obstacles camera_x camera_y camera_z camera_angle player_x player_y player_height
                             fov max_render_distance map_width map_height output_buffer s =
     (case output_buffer of
        None \<Rightarrow> Inr (0, None, s)
      | Some out \<Rightarrow>
          if obstacle_count s = 0 then Inr (0, Some out, s)
          else
            (case collect_visible camera_x camera_y camera_angle player_x player_y player_height fov
                    max_render_distance map_width map_height s of
               Inl f \<Rightarrow> Inl f
             | Inr collected \<Rightarrow>
                 (let sorted = bubble_sort collected
                  in Inr (int (length sorted), Some (write_output sorted 0 out),
                          s\<lparr>processed := sorted\<rparr>))))"

section \<open>Visibility: the conditions and the scan order\<close>

text \<open>
  The three tests of \<open>visit_image\<close>, as the source computes them, and the record it
  stores for an image that passes them.
\<close>

definition image_dx :: "view \<Rightarrow> Obstacle \<Rightarrow> int \<Rightarrow> real" where
  "image_dx v obs tx = (obs_x obs + real_of_int tx * v_map_width v) - v_camera_x v"

definition image_dy :: "view \<Rightarrow> Obstacle \<Rightarrow> int \<Rightarrow> real" where
  "image_dy v obs ty = (obs_y obs + real_of_int ty * v_map_height v) - v_camera_y v"

definition forward_dist :: "view \<Rightarrow> real \<Rightarrow> real \<Rightarrow> real" where
  "forward_dist v dx dy = dx * v_cos_a v + dy * v_sin_a v"

text \<open>The angular difference of the source: the absolute difference, folded once at \<open>\<pi>\<close>.\<close>

definition folded_angle_diff :: "real \<Rightarrow> real \<Rightarrow> real" where
  "folded_angle_diff a b = (if \<bar>a - b\<bar> > pi then 2 * pi - \<bar>a - b\<bar> else \<bar>a - b\<bar>)"

definition image_passes :: "view \<Rightarrow> Obstacle \<Rightarrow> int \<Rightarrow> int \<Rightarrow> bool" where
  "image_passes v obs tx ty =
     (let dx = image_dx v obs tx; dy = image_dy v obs ty
      in dx * dx + dy * dy < v_max_render_distance v * v_max_render_distance v \<and>
         folded_angle_diff (atan2f dy dx) (v_camera_angle v) \<le> v_half_fov v + 0.5 \<and>
         forward_dist v dx dy > 0.5)"

definition image_record :: "view \<Rightarrow> Obstacle \<Rightarrow> int \<Rightarrow> int \<Rightarrow> ProcessedObstacle" where
  "image_record v obs tx ty =
     (let dx = image_dx v obs tx; dy = image_dy v obs ty
      in \<lparr>p_obstacle_id = obs_id obs,
          p_is_between = (if v_player_height v < obs_height obs \<and> forward_dist v dx dy > 0.5 \<and>
                             forward_dist v dx dy < v_player_t v then 1 else 0),
          p_type = obs_type obs, p_dx = dx, p_dy = dy, p_dist_sq = dx * dx + dy * dy\<rparr>)"



text \<open>
  The toroidal images in the order of the scan: obstacle index, then \<open>tx\<close>, then \<open>ty\<close>,
  each ascending.
\<close>

definition all_images :: "kernel \<Rightarrow> int \<Rightarrow> int \<Rightarrow> (int \<times> int \<times> int) list" where
  "all_images s tiles_x tiles_y =
     concat (map (\<lambda>i. concat (map (\<lambda>tx. map (\<lambda>ty. (i, tx, ty)) [- tiles_y .. tiles_y])
                                   [- tiles_x .. tiles_x]))
                 [0 .. obstacle_count s - 1])"

text \<open>
  The player's forward distance of the specification: the player's camera-relative
  position, corrected per axis by one map period when it exceeds half the map
  dimension, projected on the camera's forward axis.
\<close>

definition player_forward_dist ::
  "real \<Rightarrow> real \<Rightarrow> real \<Rightarrow> real \<Rightarrow> real \<Rightarrow> real \<Rightarrow> real \<Rightarrow> real" where
  "player_forward_dist camera_x camera_y camera_angle player_x player_y map_width map_height =
     (let dx = player_x - camera_x;
          dx' = (if dx > map_width / 2 then dx - map_width
                 else if dx < - (map_width / 2) then dx + map_width else dx);
          dy = player_y - camera_y;
          dy' = (if dy > map_height / 2 then dy - map_height
                 else if dy < - (map_height / 2) then dy + map_height else dy)
      in dx' * cos camera_angle + dy' * sin camera_angle)"

text \<open>The flat 6-tuple that the host reads at index \<open>i\<close> of the output buffer.\<close>

definition output_tuple :: "(int \<Rightarrow> real) \<Rightarrow> nat \<Rightarrow> real list" where
  "output_tuple out i = map (\<lambda>k. out (int i * 6 + k)) [0 .. 5]"

definition encode_record :: "ProcessedObstacle \<Rightarrow> real list" where
  "encode_record r =
     [real_of_int (p_obstacle_id r), p_dx r, p_dy r, p_dist_sq r,
      real_of_int (p_is_between r), real_of_int (p_type r)]"

section \<open>The records of a scan, level by level\<close>

definition row_records :: "view \<Rightarrow> Obstacle \<Rightarrow> int \<Rightarrow> int \<Rightarrow> int \<Rightarrow> ProcessedObstacle list" where
  "row_records v obs tx tiles_y lo =
     map (image_record v obs tx) (filter (image_passes v obs tx) [lo .. tiles_y])"

definition obstacle_records :: "view \<Rightarrow> Obstacle \<Rightarrow> int \<Rightarrow> int \<Rightarrow> int \<Rightarrow> ProcessedObstacle list" where
  "obstacle_records v obs tiles_x tiles_y lo =
     concat (map (\<lambda>tx. row_records v obs tx tiles_y (- tiles_y)) [lo .. tiles_x])"

definition registry_records :: "view \<Rightarrow> kernel \<Rightarrow> int \<Rightarrow> int \<Rightarrow> int \<Rightarrow> ProcessedObstacle list" where
  "registry_records v s tiles_x tiles_y lo =
     concat (map (\<lambda>i. obstacle_records v (obstacles s i) tiles_x tiles_y (- tiles_x))
                 [lo .. obstacle_count s - 1])"

section \<open>Notions for the correctness of the bubble sort\<close>

text \<open>One iteration of the inner loop, and the invariant of the outer loop: the last \<open>i\<close>
  entries are in their final place.\<close>

definition swap_step :: "ProcessedObstacle list \<Rightarrow> nat \<Rightarrow> ProcessedObstacle list" where
  "swap_step xs j =
     (if p_dist_sq (xs ! j) < p_dist_sq (xs ! (j + 1))
      then xs[j := xs ! (j + 1), j + 1 := xs ! j] else xs)"

definition tail_sorted :: "nat \<Rightarrow> ProcessedObstacle list \<Rightarrow> bool" where
  "tail_sorted i xs \<longleftrightarrow>
     (\<forall>a b. a < b \<and> b < length xs \<and> length xs - i \<le> b \<longrightarrow> p_dist_sq (xs ! b) \<le> p_dist_sq (xs ! a))"

section \<open>Ground plane rasterizer\<close>

text \<open>
  The destination buffer, with a log of the byte addresses written to it, in the
  order of the writes. The log is not part of the source: it records what the
  source does, so that ``every pixel is written once'' can be stated. The source
  and the destination are different buffers (the source is read-only).
\<close>

record buffer =
  mem :: "int \<Rightarrow> byte"
  written :: "int list"

definition store :: "int \<Rightarrow> byte \<Rightarrow> buffer \<Rightarrow> buffer" where
  "store a b buf = buf\<lparr>mem := (mem buf)(a := b), written := written buf @ [a]\<rparr>"

text \<open>
  \<^verbatim>\<open>fast_mod\<close>. The operator \<^verbatim>\<open>%\<close> of C truncates toward zero (\<open>smod\<close>); a modulus of
  zero is a division by zero.
\<close>

definition fast_mod :: "int \<Rightarrow> int \<Rightarrow> fault + int" where
  "fast_mod val modulus =
     (if modulus = 0 then Inl Integer_Division_By_Zero
      else (let result = val smod modulus
            in Inr (if result < 0 then result + modulus else result)))"

text \<open>The parameters of both renderers that describe the buffers and the camera.\<close>

record scene =
  g_ground_w :: int
  g_ground_h :: int
  g_map_w :: int
  g_map_h :: int
  g_camera_x :: real
  g_camera_y :: real
  g_cos_a :: real
  g_sin_a :: real
  g_sh_focal :: real
  g_tan_f :: real

text \<open>
  The projection of row \<open>y\<close>, the same text in both renderers: the left end
  \<open>(lX, lY)\<close> of the scanline and the increment \<open>(dx, dy)\<close> per destination column. For
  \<open>ground_w = 0\<close> the factor \<^verbatim>\<open>inv_ground_w\<close> is infinite in the source and \<open>0\<close> here, and
  no column uses it.
\<close>

definition scanline :: "scene \<Rightarrow> int \<Rightarrow> real \<times> real \<times> real \<times> real" where
  "scanline sc y =
     (let inv_ground_w = 1 / real_of_int (g_ground_w sc);
          i = real_of_int y + 1;
          dist = g_sh_focal sc / i;
          lat = dist * g_tan_f sc;
          dist_cos = dist * g_cos_a sc;
          dist_sin = dist * g_sin_a sc;
          lat_sin = lat * g_sin_a sc;
          lat_cos = lat * g_cos_a sc;
          lX = g_camera_x sc + dist_cos - lat_sin;
          lY = g_camera_y sc + dist_sin + lat_cos;
          rX = g_camera_x sc + dist_cos + lat_sin;
          rY = g_camera_y sc + dist_sin - lat_cos;
          dx = (rX - lX) * inv_ground_w;
          dy = (rY - lY) * inv_ground_w
      in (lX, lY, dx, dy))"

text \<open>The index into the source of the texel under the world coordinate \<open>(cur_x, cur_y)\<close>.\<close>

definition map_index :: "scene \<Rightarrow> real \<Rightarrow> real \<Rightarrow> fault + int" where
  "map_index sc cur_x cur_y =
     (case fast_mod (float_to_int cur_x) (g_map_w sc) of
        Inl f \<Rightarrow> Inl f
      | Inr mx \<Rightarrow>
         (case fast_mod (float_to_int cur_y) (g_map_h sc) of
            Inl f \<Rightarrow> Inl f
          | Inr my \<Rightarrow> Inr ((my * g_map_w sc + mx) * 4)))"

text \<open>The four stores of one destination pixel.\<close>

definition store_pixel :: "int \<Rightarrow> byte \<Rightarrow> byte \<Rightarrow> byte \<Rightarrow> buffer \<Rightarrow> buffer" where
  "store_pixel target_index r g b buf =
     store (target_index + 3) 255
       (store (target_index + 2) b (store (target_index + 1) g (store target_index r buf)))"

function quality_cols ::
  "(int \<Rightarrow> byte) \<Rightarrow> scene \<Rightarrow> int \<Rightarrow> real \<Rightarrow> real \<Rightarrow> int \<Rightarrow> real \<Rightarrow> real \<Rightarrow> buffer \<Rightarrow> fault + buffer" where
  "quality_cols map_data sc row_offset dx dy x cur_x cur_y buf =
     (if x < g_ground_w sc then
        (case map_index sc cur_x cur_y of
           Inl f \<Rightarrow> Inl f
         | Inr src \<Rightarrow>
             quality_cols map_data sc row_offset dx dy (x + 1) (cur_x + dx) (cur_y + dy)
               (store_pixel (row_offset + x * 4) (map_data src) (map_data (src + 1)) (map_data (src + 2)) buf))
      else Inr buf)"
  by pat_completeness auto
termination
  by (relation "measure (\<lambda>(map_data, sc, row_offset, dx, dy, x, cur_x, cur_y, buf). nat (g_ground_w sc - x))") auto

function quality_rows :: "(int \<Rightarrow> byte) \<Rightarrow> scene \<Rightarrow> int \<Rightarrow> buffer \<Rightarrow> fault + buffer" where
  "quality_rows map_data sc y buf =
     (if y < g_ground_h sc then
        (case scanline sc y of
           (lX, lY, dx, dy) \<Rightarrow>
             (case quality_cols map_data sc (y * g_ground_w sc * 4) dx dy 0 lX lY buf of
                Inl f \<Rightarrow> Inl f
              | Inr buf' \<Rightarrow> quality_rows map_data sc (y + 1) buf'))
      else Inr buf)"
  by pat_completeness auto
termination
  by (relation "measure (\<lambda>(map_data, sc, y, buf). nat (g_ground_h sc - y))") auto


subsection \<open>Performance mode\<close>

text \<open>The level-of-detail parameters. A C \<^verbatim>\<open>int\<close> used as a condition is true when non-zero.\<close>

record lod =
  l_base_res :: int
  l_dynamic_res :: int
  l_layered_res :: int
  l_state_move :: int
  l_state_rot :: int
  l_tilt :: real

text \<open>
  The step of row \<open>y\<close>, as \<^verbatim>\<open>game_logic.c\<close> computes it at the head of the row loop,
  with the thresholds \<open>t1 = ground_h * far_ratio\<close> and \<open>t2 = ground_h * (far_ratio + mid_ratio)\<close>.
\<close>

definition row_step :: "scene \<Rightarrow> lod \<Rightarrow> int \<Rightarrow> int" where
  "row_step sc l y =
     (let near_ratio = 0.4 :: real; mid_ratio = 0.5 :: real; far_ratio = 0.1 :: real;
          t1 = real_of_int (g_ground_h sc) * far_ratio;
          t2 = real_of_int (g_ground_h sc) * (far_ratio + mid_ratio);
          is_tilting = (\<bar>l_tilt l\<bar> > 0.0001);
          effective_rot = (l_state_rot l \<noteq> 0 \<or> is_tilting);
          i = real_of_int y + 1;
          step =
            (if i \<le> t1 then
               (if l_dynamic_res l \<noteq> 0 \<and> l_layered_res l \<noteq> 0
                then (if effective_rot then 5 else 4) else l_base_res l)
             else if i \<le> t2 then
               (if l_dynamic_res l \<noteq> 0 \<and> l_layered_res l \<noteq> 0
                then (if effective_rot then 5 else (if l_state_move l \<noteq> 0 then 4 else 2)) else l_base_res l)
             else
               (if l_dynamic_res l \<noteq> 0 \<and> l_layered_res l \<noteq> 0
                then (if effective_rot then 8 else (if l_state_move l \<noteq> 0 then 6 else 2)) else l_base_res l))
      in if step < 1 then 1 else step)"

text \<open>
  The same computation as \<^verbatim>\<open>ground_renderer.c\<close> writes it; the only difference is the
  far band, \<^verbatim>\<open>effective_rot ? 5 : (state_move ? 4 : 4)\<close>.
\<close>

definition row_step_ground_renderer :: "scene \<Rightarrow> lod \<Rightarrow> int \<Rightarrow> int" where
  "row_step_ground_renderer sc l y =
     (let near_ratio = 0.4 :: real; mid_ratio = 0.5 :: real; far_ratio = 0.1 :: real;
          t1 = real_of_int (g_ground_h sc) * far_ratio;
          t2 = real_of_int (g_ground_h sc) * (far_ratio + mid_ratio);
          is_tilting = (\<bar>l_tilt l\<bar> > 0.0001);
          effective_rot = (l_state_rot l \<noteq> 0 \<or> is_tilting);
          i = real_of_int y + 1;
          step =
            (if i \<le> t1 then
               (if l_dynamic_res l \<noteq> 0 \<and> l_layered_res l \<noteq> 0
                then (if effective_rot then 5 else (if l_state_move l \<noteq> 0 then 4 else 4)) else l_base_res l)
             else if i \<le> t2 then
               (if l_dynamic_res l \<noteq> 0 \<and> l_layered_res l \<noteq> 0
                then (if effective_rot then 5 else (if l_state_move l \<noteq> 0 then 4 else 2)) else l_base_res l)
             else
               (if l_dynamic_res l \<noteq> 0 \<and> l_layered_res l \<noteq> 0
                then (if effective_rot then 8 else (if l_state_move l \<noteq> 0 then 6 else 2)) else l_base_res l))
      in if step < 1 then 1 else step)"

text \<open>
  \<^verbatim>\<open>memcpy(dst, src, n)\<close> inside the destination buffer, byte by byte. The source row
  lies before the destination row, so the bytes read are not among those written.
\<close>

function memcpy_bytes :: "int \<Rightarrow> int \<Rightarrow> int \<Rightarrow> int \<Rightarrow> buffer \<Rightarrow> buffer" where
  "memcpy_bytes dst src n k buf =
     (if k < n then memcpy_bytes dst src n (k + 1) (store (dst + k) (mem buf (src + k)) buf) else buf)"
  by pat_completeness auto
termination
  by (relation "measure (\<lambda>(dst, src, n, k, buf). nat (n - k))") auto

text \<open>The loop that fills one block of a computed row with the sampled colour.\<close>

function perf_block :: "int \<Rightarrow> int \<Rightarrow> byte \<Rightarrow> byte \<Rightarrow> byte \<Rightarrow> int \<Rightarrow> buffer \<Rightarrow> buffer" where
  "perf_block row_offset end_x r g b block_x buf =
     (if block_x < end_x then
        perf_block row_offset end_x r g b (block_x + 1) (store_pixel (row_offset + block_x * 4) r g b buf)
      else buf)"
  by pat_completeness auto
termination
  by (relation "measure (\<lambda>(row_offset, end_x, r, g, b, block_x, buf). nat (end_x - block_x))") auto

text \<open>
  The column loop of a computed row. The source's loop condition is \<^verbatim>\<open>x < ground_w\<close>;
  the conjunct \<open>1 \<le> step\<close> is added here so that the recursion is defined for every
  argument. It is true at the only call, in \<open>perf_rows\<close>, where \<open>step\<close> is the clamped
  \<open>row_step\<close> (lemma \<open>row_step_ge_1\<close>).
\<close>

function perf_cols ::
  "(int \<Rightarrow> byte) \<Rightarrow> scene \<Rightarrow> int \<Rightarrow> int \<Rightarrow> real \<Rightarrow> real \<Rightarrow> int \<Rightarrow> real \<Rightarrow> real \<Rightarrow> buffer \<Rightarrow> fault + buffer" where
  "perf_cols map_data sc step row_offset dx dy x cur_x cur_y buf =
     (if x < g_ground_w sc \<and> 1 \<le> step then
        (case map_index sc cur_x cur_y of
           Inl f \<Rightarrow> Inl f
         | Inr src \<Rightarrow>
            (let r = map_data src; g = map_data (src + 1); b = map_data (src + 2);
                 end_x = (if x + step > g_ground_w sc then g_ground_w sc else x + step)
             in perf_cols map_data sc step row_offset dx dy (x + step)
                  (cur_x + dx * real_of_int step) (cur_y + dy * real_of_int step)
                  (perf_block row_offset end_x r g b x buf)))
      else Inr buf)"
  by pat_completeness auto
termination
  by (relation "measure (\<lambda>(map_data, sc, step, row_offset, dx, dy, x, cur_x, cur_y, buf). nat (g_ground_w sc - x))") auto

function perf_rows :: "(int \<Rightarrow> byte) \<Rightarrow> scene \<Rightarrow> lod \<Rightarrow> int \<Rightarrow> int \<Rightarrow> buffer \<Rightarrow> fault + buffer" where
  "perf_rows map_data sc l y last_calculated_y buf =
     (if y < g_ground_h sc then
        (let step = row_step sc l y
         in if y > 0 \<and> y smod step \<noteq> 0 \<and> last_calculated_y \<ge> 0 then
              perf_rows map_data sc l (y + 1) last_calculated_y
                (memcpy_bytes (y * g_ground_w sc * 4) (last_calculated_y * g_ground_w sc * 4)
                   (g_ground_w sc * 4) 0 buf)
            else
              (case scanline sc y of
                 (lX, lY, dx, dy) \<Rightarrow>
                   (case perf_cols map_data sc step (y * g_ground_w sc * 4) dx dy 0 lX lY buf of
                      Inl f \<Rightarrow> Inl f
                    | Inr buf' \<Rightarrow> perf_rows map_data sc l (y + 1) y buf')))
      else Inr buf)"
  by pat_completeness auto
termination
  by (relation "measure (\<lambda>(map_data, sc, l, y, last_calculated_y, buf). nat (g_ground_h sc - y))") auto

definition render_ground_performance ::
  "(int \<Rightarrow> byte) \<Rightarrow> (int \<Rightarrow> byte) \<Rightarrow> int \<Rightarrow> int \<Rightarrow> int \<Rightarrow> int \<Rightarrow> real \<Rightarrow> real \<Rightarrow> real \<Rightarrow> real \<Rightarrow> real \<Rightarrow> real
     \<Rightarrow> int \<Rightarrow> int \<Rightarrow> int \<Rightarrow> int \<Rightarrow> int \<Rightarrow> real \<Rightarrow> fault + buffer" where
  "render_ground_performance ground_pixels map_data ground_w ground_h map_w map_h
                             camera_x camera_y cos_a sin_a sh_focal tan_f
                             base_res dynamic_res layered_res state_move state_rot tilt =
     perf_rows map_data
       \<lparr>g_ground_w = ground_w, g_ground_h = ground_h, g_map_w = map_w, g_map_h = map_h,
        g_camera_x = camera_x, g_camera_y = camera_y, g_cos_a = cos_a, g_sin_a = sin_a,
        g_sh_focal = sh_focal, g_tan_f = tan_f\<rparr>
       \<lparr>l_base_res = base_res, l_dynamic_res = dynamic_res, l_layered_res = layered_res,
        l_state_move = state_move, l_state_rot = state_rot, l_tilt = tilt\<rparr>
       0 (- 1) \<lparr>mem = ground_pixels, written = []\<rparr>"

declare quality_cols.simps [simp del] quality_rows.simps [simp del] memcpy_bytes.simps [simp del]
  perf_block.simps [simp del] perf_cols.simps [simp del] perf_rows.simps [simp del]

section \<open>Rasterizer: the notions of the specification\<close>

text \<open>
  The depth bands by row index: the far band is the first 10 percent of the rows
  (\<open>y + 1 \<le> 0.1 * dstH\<close>), the mid band the next 50 percent, the near band the rest.
\<close>

datatype band = Far | Mid | Near

definition band_of :: "int \<Rightarrow> int \<Rightarrow> band" where
  "band_of ground_h y =
     (if real_of_int (y + 1) \<le> 0.1 * real_of_int ground_h then Far
      else if real_of_int (y + 1) \<le> 0.1 * real_of_int ground_h + 0.5 * real_of_int ground_h then Mid
      else Near)"

text \<open>The decision table of the specification, before the clamp.\<close>

definition table_step :: "band \<Rightarrow> bool \<Rightarrow> bool \<Rightarrow> bool \<Rightarrow> int \<Rightarrow> int" where
  "table_step b adaptive_and_layered rotating_or_tilting moving base_step =
     (if adaptive_and_layered then
        (case b of
           Far \<Rightarrow> (if rotating_or_tilting then 5 else 4)
         | Mid \<Rightarrow> (if rotating_or_tilting then 5 else if moving then 4 else 2)
         | Near \<Rightarrow> (if rotating_or_tilting then 8 else if moving then 6 else 2))
      else base_step)"

text \<open>
  The most recently computed row at or above row \<open>y\<close>: row 0 and the rows whose
  index is a multiple of their step are computed.
\<close>

definition row_computed :: "scene \<Rightarrow> lod \<Rightarrow> int \<Rightarrow> bool" where
  "row_computed sc l y \<longleftrightarrow> y = 0 \<or> y mod row_step sc l y = 0"

function last_computed_row :: "scene \<Rightarrow> lod \<Rightarrow> int \<Rightarrow> int" where
  "last_computed_row sc l y =
     (if y \<le> 0 then 0
      else if row_computed sc l y then y
      else last_computed_row sc l (y - 1))"
  by pat_completeness auto
termination
  by (relation "measure (\<lambda>(sc, l, y). nat y)") auto

declare last_computed_row.simps [simp del]





text \<open>A source texture whose first 16 bytes are 10, 11, \<dots>, 25, and a destination that holds 7.\<close>

definition checker :: "int \<Rightarrow> byte" where
  "checker a = (if 0 \<le> a \<and> a < 16 then word_of_int (a + 10) else 0)"

definition blank :: "int \<Rightarrow> byte" where
  "blank a = 7"


section \<open>Concrete inputs used in closed theorems\<close>

definition empty_kernel :: kernel where
  "empty_kernel = \<lparr>obstacles = (\<lambda>_. zero_obstacle), obstacle_count = 0, processed = []\<rparr>"

text \<open>The registry of the scenario of the specification: one obstacle at \<open>(10, 10)\<close>.\<close>

definition scenario_obstacle :: Obstacle where
  "scenario_obstacle = \<lparr>obs_x = 10, obs_y = 10, obs_radius = 2, obs_height = 1, obs_id = 1, obs_type = 0\<rparr>"

definition scenario_kernel :: kernel where
  "scenario_kernel = \<lparr>obstacles = (\<lambda>_. zero_obstacle)(0 := scenario_obstacle), obstacle_count = 1, processed = []\<rparr>"




text \<open>A registry one short of full.\<close>

definition nearly_full_kernel :: kernel where
  "nearly_full_kernel = \<lparr>obstacles = (\<lambda>_. zero_obstacle), obstacle_count = 9999, processed = []\<rparr>"

text \<open>
  Two obstacles straight ahead of a camera at \<open>(0, 10)\<close> that looks along the x axis:
  the obstacle of the scenario, 10 away, and a second one, 20 away.
\<close>

definition far_obstacle :: Obstacle where
  "far_obstacle = \<lparr>obs_x = 20, obs_y = 10, obs_radius = 2, obs_height = 1, obs_id = 2, obs_type = 3\<rparr>"

definition pair_kernel :: kernel where
  "pair_kernel = \<lparr>obstacles = (\<lambda>_. zero_obstacle)(0 := scenario_obstacle, 1 := far_obstacle),
                   obstacle_count = 2, processed = []\<rparr>"

definition near_record :: ProcessedObstacle where
  "near_record = \<lparr>p_obstacle_id = 1, p_is_between = 1, p_type = 0, p_dx = 10, p_dy = 0, p_dist_sq = 100\<rparr>"

definition far_record :: ProcessedObstacle where
  "far_record = \<lparr>p_obstacle_id = 2, p_is_between = 0, p_type = 3, p_dx = 20, p_dy = 0, p_dist_sq = 400\<rparr>"




text \<open>An output buffer that holds zeros.\<close>

definition zero_buffer :: "int \<Rightarrow> real" where
  "zero_buffer = (\<lambda>_. 0)"

text \<open>A scene of 25 rows, and two level-of-detail settings: translating, and tilting.\<close>

definition tall_scene :: scene where
  "tall_scene = \<lparr>g_ground_w = 4, g_ground_h = 25, g_map_w = 2, g_map_h = 2,
                g_camera_x = 0, g_camera_y = 0, g_cos_a = 1, g_sin_a = 0,
                g_sh_focal = 1, g_tan_f = 1\<rparr>"

definition lod_moving :: lod where
  "lod_moving = \<lparr>l_base_res = 3, l_dynamic_res = 1, l_layered_res = 1,
                  l_state_move = 1, l_state_rot = 0, l_tilt = 0\<rparr>"

definition lod_tilting :: lod where
  "lod_tilting = \<lparr>l_base_res = 3, l_dynamic_res = 1, l_layered_res = 1,
                   l_state_move = 0, l_state_rot = 0, l_tilt = 0.5\<rparr>"

section \<open>Registry insertion\<close>

lemma add_obstacles_loop_spec:
  "0 \<le> i \<Longrightarrow> i \<le> count \<Longrightarrow> obstacle_count s \<le> MAX_OBSTACLES \<Longrightarrow>
   add_obstacles_loop data count i added s = (r, s') \<Longrightarrow>
   (let k = min (count - i) (MAX_OBSTACLES - obstacle_count s) in
      r = added + k \<and> obstacle_count s' = obstacle_count s + k \<and> processed s' = processed s \<and>
      (\<forall>j. obstacles s' j =
        (if obstacle_count s \<le> j \<and> j < obstacle_count s + k
         then read_obstacle data ((i + (j - obstacle_count s)) * 6) else obstacles s j)))"
proof (induction data count i added s arbitrary: r s' rule: add_obstacles_loop.induct)
  case (1 data count i added s)
  show ?case
  proof (cases "i < count \<and> obstacle_count s < MAX_OBSTACLES")
    case False
    with "1.prems" have "r = added" "s' = s"
      by (simp_all add: add_obstacles_loop.simps)
    moreover from False "1.prems" have "min (count - i) (MAX_OBSTACLES - obstacle_count s) = 0"
      by auto
    ultimately show ?thesis by simp
  next
    case True
    define t where "t = s\<lparr>obstacles := (obstacles s)(obstacle_count s := read_obstacle data (i * 6)),
             obstacle_count := obstacle_count s + 1\<rparr>"
    from True "1.prems" have run: "add_obstacles_loop data count (i + 1) (added + 1) t = (r, s')"
      by (simp add: add_obstacles_loop.simps [of data count i] t_def)
    have ct: "obstacle_count t = obstacle_count s + 1" and pt: "processed t = processed s"
      and ot: "obstacles t = (obstacles s)(obstacle_count s := read_obstacle data (i * 6))"
      by (simp_all add: t_def)
    from True "1.prems" have pre: "0 \<le> i + 1" "i + 1 \<le> count" "obstacle_count t \<le> MAX_OBSTACLES"
      by (simp_all add: ct)
    note ih = "1.IH" [OF True, folded t_def, OF pre run]
    have k: "min (count - i) (MAX_OBSTACLES - obstacle_count s)
               = min (count - (i + 1)) (MAX_OBSTACLES - obstacle_count t) + 1"
      using True by (simp add: ct)
    have nonneg: "0 \<le> min (count - (i + 1)) (MAX_OBSTACLES - obstacle_count t)"
      using pre by simp
    show ?thesis
      using ih nonneg unfolding k Let_def ct pt ot
      by (auto simp: algebra_simps)
  qed
qed

lemma add_obstacles_loop_total:
  "\<exists>r s'. add_obstacles_loop data count i added s = (r, s')"
  by (cases "add_obstacles_loop data count i added s") simp

text \<open>
  C9. For a registry of size \<open>n\<close> (at most \<open>MAX_OBSTACLES\<close>) and a batch of \<open>count\<close>
  records, \<open>add_obstacles_batch\<close> returns \<open>min count (MAX_OBSTACLES - n)\<close>, stores
  exactly that many records, in input order, at the indices \<open>n, n + 1, \<dots>\<close>, leaves every
  other entry of the array as it was (the records beyond the capacity are stored
  nowhere), and \<open>get_obstacle_count\<close> afterwards returns \<open>n\<close> plus the returned value.
\<close>

theorem add_obstacles_batch_capped:
  assumes "0 \<le> count" and "obstacle_count s \<le> MAX_OBSTACLES"
  shows "\<exists>s'. add_obstacles_batch data count s = (min count (MAX_OBSTACLES - obstacle_count s), s') \<and>
           fst (get_obstacle_count s') = obstacle_count s + min count (MAX_OBSTACLES - obstacle_count s) \<and>
           fst (get_obstacle_count s') \<le> MAX_OBSTACLES \<and>
           (\<forall>j. 0 \<le> j \<and> j < min count (MAX_OBSTACLES - obstacle_count s) \<longrightarrow>
                obstacles s' (obstacle_count s + j) = read_obstacle data (j * 6)) \<and>
           (\<forall>i. i < obstacle_count s \<or> obstacle_count s + min count (MAX_OBSTACLES - obstacle_count s) \<le> i \<longrightarrow>
                obstacles s' i = obstacles s i)"
proof -
  obtain r s' where run: "add_obstacles_loop data count 0 0 s = (r, s')"
    using add_obstacles_loop_total by blast
  define k where "k = min count (MAX_OBSTACLES - obstacle_count s)"
  from add_obstacles_loop_spec [OF _ assms(1) assms(2) run]
  have r: "r = k" and c: "obstacle_count s' = obstacle_count s + k"
    and o: "\<And>j. obstacles s' j =
        (if obstacle_count s \<le> j \<and> j < obstacle_count s + k
         then read_obstacle data ((j - obstacle_count s) * 6) else obstacles s j)"
    by (simp_all add: Let_def k_def)
  have "k \<le> MAX_OBSTACLES - obstacle_count s"
    by (simp add: k_def)
  then have le: "obstacle_count s + k \<le> MAX_OBSTACLES"
    by simp
  have "add_obstacles_batch data count s = (k, s')"
    using run r by (simp add: add_obstacles_batch_def)
  moreover have "fst (get_obstacle_count s') = obstacle_count s + k"
    by (simp add: get_obstacle_count_def c)
  moreover have "fst (get_obstacle_count s') \<le> MAX_OBSTACLES"
    using le by (simp add: get_obstacle_count_def c)
  moreover have "\<forall>j. 0 \<le> j \<and> j < k \<longrightarrow> obstacles s' (obstacle_count s + j) = read_obstacle data (j * 6)"
    by (simp add: o)
  moreover have "\<forall>i. i < obstacle_count s \<or> obstacle_count s + k \<le> i \<longrightarrow> obstacles s' i = obstacles s i"
    by (auto simp: o)
  ultimately show ?thesis
    unfolding k_def by blast
qed

theorem add_obstacles_batch_capped_witness:
  "(0::int) \<le> 3 \<and> obstacle_count nearly_full_kernel \<le> MAX_OBSTACLES \<and>
   fst (add_obstacles_batch (\<lambda>i. real_of_int i) 3 nearly_full_kernel) = 1 \<and>
   obstacles (snd (add_obstacles_batch (\<lambda>i. real_of_int i) 3 nearly_full_kernel)) 9999
     = \<lparr>obs_x = 0, obs_y = 1, obs_radius = 2, obs_height = 3, obs_id = 4, obs_type = 5\<rparr> \<and>
   obstacles (snd (add_obstacles_batch (\<lambda>i. real_of_int i) 3 nearly_full_kernel)) 10000 = zero_obstacle"
proof -
  have h1: "(0::int) \<le> 3" by simp
  have h2: "obstacle_count nearly_full_kernel \<le> MAX_OBSTACLES"
    by (simp add: nearly_full_kernel_def MAX_OBSTACLES_def)
  from add_obstacles_batch_capped [OF h1 h2, of "\<lambda>i. real_of_int i"]
  obtain s' where run: "add_obstacles_batch (\<lambda>i. real_of_int i) 3 nearly_full_kernel = (1, s')"
    and st: "obstacles s' (9999 + 0) = read_obstacle (\<lambda>i. real_of_int i) (0 * 6)"
    and rest: "obstacles s' 10000 = obstacles nearly_full_kernel 10000"
    by (auto simp: nearly_full_kernel_def MAX_OBSTACLES_def)
  show ?thesis
    using h1 h2 run st rest
    by (simp add: read_obstacle_def float_to_int_def nearly_full_kernel_def)
qed

section \<open>Collision detector: flyover and wrap\<close>

lemma check_collision_loop_iff:
  "check_collision_loop s pr ph nx ny mw mh i =
     (if \<exists>j. i \<le> j \<and> j < obstacle_count s \<and> ph < obs_height (obstacles s j) \<and>
             obstacle_hit (obstacles s j) pr nx ny mw mh then 1 else 0)"
proof (induction s pr ph nx ny mw mh i rule: check_collision_loop.induct)
  case (1 s pr ph nx ny mw mh i)
  show ?case
  proof (cases "i < obstacle_count s")
    case False
    then show ?thesis by (simp add: check_collision_loop.simps [of s pr ph nx ny mw mh i])
  next
    case True
    have split: "\<And>P. (\<exists>j. i \<le> j \<and> j < obstacle_count s \<and> P j) \<longleftrightarrow>
                 P i \<or> (\<exists>j. i + 1 \<le> j \<and> j < obstacle_count s \<and> P j)"
      using True by (metis add1_zle_eq order_le_less)
    show ?thesis
    proof (cases "ph \<ge> obs_height (obstacles s i)")
      case flown: True
      with True "1.IH"(1) show ?thesis
        by (subst check_collision_loop.simps, subst split) auto
    next
      case notflown: False
      show ?thesis
      proof (cases "obstacle_hit (obstacles s i) pr nx ny mw mh")
        case True
        with \<open>i < obstacle_count s\<close> notflown show ?thesis
          by (subst check_collision_loop.simps, subst split) auto
      next
        case False
        with \<open>i < obstacle_count s\<close> notflown "1.IH"(2) show ?thesis
          by (subst check_collision_loop.simps, subst split) auto
      qed
    qed
  qed
qed



text \<open>
  C4. An obstacle whose height is at most the player's height never causes a
  reported collision: whenever \<open>check_collision\<close> reports one, an obstacle other than
  that one, strictly taller than the player, is hit; and the result does not depend
  on where that obstacle is or how large it is (it may be replaced by any record of
  the same height), whatever the proposed position and the player's radius.
\<close>

theorem check_collision_flyover:
  assumes "0 \<le> k" and "k < obstacle_count s" and "obs_height (obstacles s k) \<le> player_height"
  shows "(fst (check_collision player_x player_y player_radius player_height new_x new_y map_width map_height s) \<noteq> 0 \<longrightarrow>
            (\<exists>j. 0 \<le> j \<and> j < obstacle_count s \<and> j \<noteq> k \<and> player_height < obs_height (obstacles s j) \<and>
                 obstacle_hit (obstacles s j) player_radius new_x new_y map_width map_height)) \<and>
         fst (check_collision player_x player_y player_radius player_height new_x new_y map_width map_height
                (s\<lparr>obstacles := (obstacles s)(k := ob\<lparr>obs_height := obs_height (obstacles s k)\<rparr>)\<rparr>))
           = fst (check_collision player_x player_y player_radius player_height new_x new_y map_width map_height s)"
proof -
  let ?s' = "s\<lparr>obstacles := (obstacles s)(k := ob\<lparr>obs_height := obs_height (obstacles s k)\<rparr>)\<rparr>"
  have not_k: "\<And>j. player_height < obs_height (obstacles s j) \<Longrightarrow> j \<noteq> k"
    using assms(3) by auto
  have same: "\<And>j. (player_height < obs_height (obstacles ?s' j) \<and>
                 obstacle_hit (obstacles ?s' j) player_radius new_x new_y map_width map_height)
             = (player_height < obs_height (obstacles s j) \<and>
                 obstacle_hit (obstacles s j) player_radius new_x new_y map_width map_height)"
    using assms(3) by auto
  have first: "fst (check_collision player_x player_y player_radius player_height new_x new_y map_width map_height s) \<noteq> 0 \<longrightarrow>
            (\<exists>j. 0 \<le> j \<and> j < obstacle_count s \<and> j \<noteq> k \<and> player_height < obs_height (obstacles s j) \<and>
                 obstacle_hit (obstacles s j) player_radius new_x new_y map_width map_height)"
    using not_k by (auto simp: check_collision_def check_collision_loop_iff split: if_splits)
  have second: "fst (check_collision player_x player_y player_radius player_height new_x new_y map_width map_height ?s')
           = fst (check_collision player_x player_y player_radius player_height new_x new_y map_width map_height s)"
    unfolding check_collision_def fst_conv check_collision_loop_iff same by simp
  from first second show ?thesis by blast
qed

theorem check_collision_flyover_witness:
  "(0::int) \<le> 0 \<and> 0 < obstacle_count scenario_kernel \<and> obs_height (obstacles scenario_kernel 0) \<le> 1 \<and>
   fst (check_collision 10 10 1 1 10 10 100 100 scenario_kernel) = 0"
proof -
  have h1: "(0::int) \<le> 0" by simp
  have h2: "0 < obstacle_count scenario_kernel" by (simp add: scenario_kernel_def)
  have h3: "obs_height (obstacles scenario_kernel 0) \<le> 1"
    by (simp add: scenario_kernel_def scenario_obstacle_def)
  have "\<not> (\<exists>j. 0 \<le> j \<and> j < obstacle_count scenario_kernel \<and> j \<noteq> 0 \<and> P j)" for P
    by (simp add: scenario_kernel_def)
  with check_collision_flyover [OF h1 h2 h3, of 10 10 1 10 10 100 100 zero_obstacle]
  have "fst (check_collision 10 10 1 1 10 10 100 100 scenario_kernel) = 0"
    by blast
  with h1 h2 h3 show ?thesis by blast
qed




section \<open>The scan collects the passing images, up to the cap\<close>

lemma visit_image_eq:
  "visit_image v obs tx ty acc =
     (if image_passes v obs tx ty then
        (if length acc \<ge> MAX_PROCESSED then Inl acc else Inr (acc @ [image_record v obs tx ty]))
      else Inr acc)"
  by (simp add: visit_image_def image_passes_def image_record_def Let_def image_dx_def image_dy_def
      forward_dist_def folded_angle_diff_def M_PI_def)

lemma row_records_step:
  "ty \<le> tiles_y \<Longrightarrow> row_records v obs tx tiles_y ty =
     (if image_passes v obs tx ty then [image_record v obs tx ty] else []) @ row_records v obs tx tiles_y (ty + 1)"
  by (simp add: row_records_def upto_rec1 [of ty tiles_y])

lemma row_records_empty: "\<not> ty \<le> tiles_y \<Longrightarrow> row_records v obs tx tiles_y ty = []"
  by (simp add: row_records_def)

lemma scan_ty_spec:
  "length acc \<le> MAX_PROCESSED \<Longrightarrow>
   (case scan_ty v obs tx tiles_y ty acc of
      Inl a \<Rightarrow> a = take MAX_PROCESSED (acc @ row_records v obs tx tiles_y ty) \<and> length a = MAX_PROCESSED
    | Inr a \<Rightarrow> a = acc @ row_records v obs tx tiles_y ty \<and> length a \<le> MAX_PROCESSED)"
proof (induction v obs tx tiles_y ty acc rule: scan_ty.induct)
  case (1 v obs tx tiles_y ty acc)
  show ?case
  proof (cases "ty \<le> tiles_y")
    case False
    then show ?thesis
      using "1.prems" by (simp add: scan_ty.simps [of v obs tx tiles_y ty] row_records_empty)
  next
    case True
    note step = row_records_step [OF True, of v obs tx]
    show ?thesis
    proof (cases "image_passes v obs tx ty")
      case False
      then have vi: "visit_image v obs tx ty acc = Inr acc" by (simp add: visit_image_eq)
      from "1.IH" [OF True vi "1.prems"] show ?thesis
        using True False vi by (simp add: scan_ty.simps [of v obs tx tiles_y ty] step split: sum.splits)
    next
      case passes: True
      show ?thesis
      proof (cases "length acc \<ge> MAX_PROCESSED")
        case True
        with passes have vi: "visit_image v obs tx ty acc = Inl acc" by (simp add: visit_image_eq)
        from True "1.prems" have "length acc = MAX_PROCESSED" by simp
        then show ?thesis
          using \<open>ty \<le> tiles_y\<close> vi by (simp add: scan_ty.simps [of v obs tx tiles_y ty])
      next
        case False
        with passes have vi: "visit_image v obs tx ty acc = Inr (acc @ [image_record v obs tx ty])"
          by (simp add: visit_image_eq)
        from False have "length (acc @ [image_record v obs tx ty]) \<le> MAX_PROCESSED" by simp
        from "1.IH" [OF True vi this] show ?thesis
          using True passes vi by (simp add: scan_ty.simps [of v obs tx tiles_y ty] step split: sum.splits)
      qed
    qed
  qed
qed

lemma take_full_append: "length (take n xs) = n \<Longrightarrow> take n (xs @ ys) = take n xs"
  by (simp add: min_def split: if_splits)

lemma obstacle_records_step:
  "tx \<le> tiles_x \<Longrightarrow> obstacle_records v obs tiles_x tiles_y tx =
     row_records v obs tx tiles_y (- tiles_y) @ obstacle_records v obs tiles_x tiles_y (tx + 1)"
  by (simp add: obstacle_records_def upto_rec1 [of tx tiles_x])

lemma obstacle_records_empty: "\<not> tx \<le> tiles_x \<Longrightarrow> obstacle_records v obs tiles_x tiles_y tx = []"
  by (simp add: obstacle_records_def)

lemma scan_tx_spec:
  "length acc \<le> MAX_PROCESSED \<Longrightarrow>
   (case scan_tx v obs tiles_x tiles_y tx acc of
      Inl a \<Rightarrow> a = take MAX_PROCESSED (acc @ obstacle_records v obs tiles_x tiles_y tx) \<and> length a = MAX_PROCESSED
    | Inr a \<Rightarrow> a = acc @ obstacle_records v obs tiles_x tiles_y tx \<and> length a \<le> MAX_PROCESSED)"
proof (induction v obs tiles_x tiles_y tx acc rule: scan_tx.induct)
  case (1 v obs tiles_x tiles_y tx acc)
  show ?case
  proof (cases "tx \<le> tiles_x")
    case False
    then show ?thesis
      using "1.prems" by (simp add: scan_tx.simps [of v obs tiles_x tiles_y tx] obstacle_records_empty)
  next
    case True
    note step = obstacle_records_step [OF True, of v obs tiles_y]
    note row = scan_ty_spec [OF "1.prems", of v obs tx tiles_y "- tiles_y"]
    show ?thesis
    proof (cases "scan_ty v obs tx tiles_y (- tiles_y) acc")
      case (Inl a)
      from row [unfolded Inl sum.case] have a: "a = take MAX_PROCESSED (acc @ row_records v obs tx tiles_y (- tiles_y))"
        and full: "length a = MAX_PROCESSED" by blast+
      from a full have "take MAX_PROCESSED ((acc @ row_records v obs tx tiles_y (- tiles_y)) @
                          obstacle_records v obs tiles_x tiles_y (tx + 1)) = a"
        using take_full_append by metis
      then show ?thesis
        using True Inl full by (simp add: scan_tx.simps [of v obs tiles_x tiles_y tx] step del: take_append)
    next
      case (Inr a)
      from row [unfolded Inr sum.case] have a: "a = acc @ row_records v obs tx tiles_y (- tiles_y)"
        and le: "length a \<le> MAX_PROCESSED" by blast+
      from "1.IH" [OF True Inr le] show ?thesis
        using True Inr a by (simp add: scan_tx.simps [of v obs tiles_x tiles_y tx] step split: sum.splits del: take_append)
    qed
  qed
qed

lemma registry_records_step:
  "i < obstacle_count s \<Longrightarrow> registry_records v s tiles_x tiles_y i =
     obstacle_records v (obstacles s i) tiles_x tiles_y (- tiles_x) @ registry_records v s tiles_x tiles_y (i + 1)"
  by (simp add: registry_records_def upto_rec1 [of i "obstacle_count s - 1"])

lemma registry_records_empty: "\<not> i < obstacle_count s \<Longrightarrow> registry_records v s tiles_x tiles_y i = []"
  by (simp add: registry_records_def)

lemma scan_obstacles_spec:
  "tiles search_radius (v_map_width v) = Inr tiles_x \<Longrightarrow>
   tiles search_radius (v_map_height v) = Inr tiles_y \<Longrightarrow>
   length acc \<le> MAX_PROCESSED \<Longrightarrow>
     scan_obstacles v search_radius s i acc
       = Inr (take MAX_PROCESSED (acc @ registry_records v s tiles_x tiles_y i))"
proof (induction v search_radius s i acc rule: scan_obstacles.induct)
  case (1 v search_radius s i acc)
  show ?case
  proof (cases "i < obstacle_count s")
    case False
    then show ?thesis
      using "1.prems" by (simp add: scan_obstacles.simps [of v search_radius s i] registry_records_empty)
  next
    case True
    note step = registry_records_step [OF True, of v tiles_x tiles_y]
    note ob = scan_tx_spec [OF "1.prems"(3), of v "obstacles s i" tiles_x tiles_y "- tiles_x"]
    show ?thesis
    proof (cases "scan_tx v (obstacles s i) tiles_x tiles_y (- tiles_x) acc")
      case (Inl a)
      from ob [unfolded Inl sum.case] have a: "a = take MAX_PROCESSED (acc @ obstacle_records v (obstacles s i) tiles_x tiles_y (- tiles_x))"
        and full: "length a = MAX_PROCESSED" by blast+
      from a full have "take MAX_PROCESSED ((acc @ obstacle_records v (obstacles s i) tiles_x tiles_y (- tiles_x)) @
                          registry_records v s tiles_x tiles_y (i + 1)) = a"
        using take_full_append by metis
      then show ?thesis
        using True Inl "1.prems"(1,2)
        by (simp add: scan_obstacles.simps [of v search_radius s i] step del: take_append)
    next
      case (Inr a)
      from ob [unfolded Inr sum.case] have a: "a = acc @ obstacle_records v (obstacles s i) tiles_x tiles_y (- tiles_x)"
        and le: "length a \<le> MAX_PROCESSED" by blast+
      from "1.IH" [OF True "1.prems"(1) "1.prems"(2) Inr "1.prems"(1,2) le] show ?thesis
        using True Inr a "1.prems"(1,2)
        by (simp add: scan_obstacles.simps [of v search_radius s i] step del: take_append)
    qed
  qed
qed

lemma scan_obstacles_fault:
  "i < obstacle_count s \<Longrightarrow> v_map_width v = 0 \<or> v_map_height v = 0 \<Longrightarrow>
   scan_obstacles v search_radius s i acc = Inl Non_Finite_Conversion"
  by (auto simp: scan_obstacles.simps [of v search_radius s i] tiles_def)

lemma registry_records_images:
  "registry_records v s tiles_x tiles_y 0 =
     map (\<lambda>(i, tx, ty). image_record v (obstacles s i) tx ty)
       (filter (\<lambda>(i, tx, ty). image_passes v (obstacles s i) tx ty) (all_images s tiles_x tiles_y))"
  by (simp add: registry_records_def obstacle_records_def row_records_def all_images_def
      filter_concat map_concat comp_def filter_map)

section \<open>The bubble sort is a stable descending sort\<close>

lemma bubble_inner_unfold:
  "bubble_inner bound j xs = (if j < bound then bubble_inner bound (j + 1) (swap_step xs j) else xs)"
  by (subst bubble_inner.simps) (simp add: swap_step_def)

lemma adjacent_split:
  assumes "j + 1 < length xs"
  shows "xs = take j xs @ [xs ! j, xs ! (j + 1)] @ drop (j + 2) xs"
proof -
  have "drop j xs = xs ! j # drop (Suc j) xs"
    using assms by (simp add: Cons_nth_drop_Suc)
  moreover have "drop (Suc j) xs = xs ! Suc j # drop (Suc (Suc j)) xs"
    using assms by (simp add: Cons_nth_drop_Suc)
  ultimately have "drop j xs = [xs ! j, xs ! (j + 1)] @ drop (j + 2) xs"
    by simp
  then show ?thesis
    by (metis append_take_drop_id)
qed

lemma adjacent_swap:
  assumes "j + 1 < length xs"
  shows "xs[j := xs ! (j + 1), j + 1 := xs ! j] = take j xs @ [xs ! (j + 1), xs ! j] @ drop (j + 2) xs"
proof (rule nth_equalityI)
  show "length (xs[j := xs ! (j + 1), j + 1 := xs ! j])
      = length (take j xs @ [xs ! (j + 1), xs ! j] @ drop (j + 2) xs)"
    using assms by simp
next
  fix i assume "i < length (xs[j := xs ! (j + 1), j + 1 := xs ! j])"
  then have i: "i < length xs" by simp
  consider "i < j" | "i = j" | "i = j + 1" | "j + 2 \<le> i" by linarith
  then show "xs[j := xs ! (j + 1), j + 1 := xs ! j] ! i
           = (take j xs @ [xs ! (j + 1), xs ! j] @ drop (j + 2) xs) ! i"
  proof cases
    case 1 with assms i show ?thesis by (simp add: nth_append)
  next
    case 2 with assms i show ?thesis by (simp add: nth_append)
  next
    case 3 with assms i show ?thesis by (simp add: nth_append)
  next
    case 4
    then obtain d where d: "i = j + 2 + d" using le_Suc_ex by blast
    with assms i show ?thesis by (simp add: nth_append)
  qed
qed

lemma swap_step_length [simp]: "length (swap_step xs j) = length xs"
  by (simp add: swap_step_def)

lemma swap_step_other: "m \<noteq> j \<Longrightarrow> m \<noteq> j + 1 \<Longrightarrow> swap_step xs j ! m = xs ! m"
  by (simp add: swap_step_def)

lemma swap_step_prefix:
  assumes "bound < length xs" and "j + 1 \<le> bound" and "m \<le> bound"
  shows "\<exists>m'\<le>bound. swap_step xs j ! m = xs ! m'"
proof -
  consider "m = j" | "m = j + 1" | "m \<noteq> j" "m \<noteq> j + 1" by blast
  then show ?thesis
  proof cases
    case 1
    with assms have "swap_step xs j ! m = xs ! (j + 1) \<or> swap_step xs j ! m = xs ! j"
      by (simp add: swap_step_def)
    with assms(2) show ?thesis by (metis Suc_eq_plus1 Suc_leD)
  next
    case 2
    with assms have "swap_step xs j ! m = xs ! j \<or> swap_step xs j ! m = xs ! (j + 1)"
      by (simp add: swap_step_def)
    with assms(2) show ?thesis by (metis Suc_eq_plus1 Suc_leD)
  next
    case 3
    then have "swap_step xs j ! m = xs ! m" by (rule swap_step_other)
    with assms(3) show ?thesis by blast
  qed
qed

lemma swap_step_pair:
  "j + 1 < length xs \<Longrightarrow>
   p_dist_sq (swap_step xs j ! (j + 1)) \<le> p_dist_sq (swap_step xs j ! j) \<and>
   p_dist_sq (swap_step xs j ! (j + 1)) \<le> p_dist_sq (xs ! j)"
  by (simp add: swap_step_def)

lemma swap_step_stable:
  assumes "j + 1 < length xs"
  shows "filter (\<lambda>r. p_dist_sq r = d) (swap_step xs j) = filter (\<lambda>r. p_dist_sq r = d) xs"
proof (cases "p_dist_sq (xs ! j) < p_dist_sq (xs ! (j + 1))")
  case False
  then show ?thesis by (simp add: swap_step_def)
next
  case True
  then have sw: "swap_step xs j = take j xs @ [xs ! (j + 1), xs ! j] @ drop (j + 2) xs"
    using adjacent_swap [OF assms] by (simp add: swap_step_def)
  have "filter (\<lambda>r. p_dist_sq r = d) (take j xs @ [xs ! (j + 1), xs ! j] @ drop (j + 2) xs)
      = filter (\<lambda>r. p_dist_sq r = d) (take j xs @ [xs ! j, xs ! (j + 1)] @ drop (j + 2) xs)"
    using True by auto
  also have "\<dots> = filter (\<lambda>r. p_dist_sq r = d) xs"
    using arg_cong [OF adjacent_split [OF assms], of "filter (\<lambda>r. p_dist_sq r = d)"] by (rule sym)
  finally show ?thesis
    unfolding sw .
qed

lemma bubble_inner_length:
  "length (bubble_inner bound j xs) = length xs"
proof (induction bound j xs rule: bubble_inner.induct)
  case (1 bound j xs)
  show ?case
    using "1.IH" [folded swap_step_def] by (subst bubble_inner_unfold) simp
qed

lemma bubble_inner_other:
  "bound < length xs \<Longrightarrow> m < j \<or> bound < m \<Longrightarrow> bubble_inner bound j xs ! m = xs ! m"
proof (induction bound j xs rule: bubble_inner.induct)
  case (1 bound j xs)
  show ?case
  proof (cases "j < bound")
    case False
    then show ?thesis by (subst bubble_inner_unfold) simp
  next
    case True
    from "1.prems" True have "m \<noteq> j" "m \<noteq> j + 1" by auto
    then have "swap_step xs j ! m = xs ! m" by (rule swap_step_other)
    moreover have "bubble_inner bound (j + 1) (swap_step xs j) ! m = swap_step xs j ! m"
      using "1.IH" [folded swap_step_def, OF True] "1.prems" by auto
    ultimately show ?thesis
      using True by (subst bubble_inner_unfold) simp
  qed
qed

lemma bubble_inner_stable:
  "bound < length xs \<Longrightarrow>
   filter (\<lambda>r. p_dist_sq r = d) (bubble_inner bound j xs) = filter (\<lambda>r. p_dist_sq r = d) xs"
proof (induction bound j xs rule: bubble_inner.induct)
  case (1 bound j xs)
  show ?case
  proof (cases "j < bound")
    case False
    then show ?thesis by (subst bubble_inner_unfold) simp
  next
    case True
    with "1.prems" have "j + 1 < length xs" by simp
    then have "filter (\<lambda>r. p_dist_sq r = d) (swap_step xs j) = filter (\<lambda>r. p_dist_sq r = d) xs"
      by (rule swap_step_stable)
    moreover have "filter (\<lambda>r. p_dist_sq r = d) (bubble_inner bound (j + 1) (swap_step xs j))
        = filter (\<lambda>r. p_dist_sq r = d) (swap_step xs j)"
      using "1.IH" [folded swap_step_def, OF True] "1.prems" by simp
    ultimately show ?thesis
      using True by (subst bubble_inner_unfold) simp
  qed
qed

lemma bubble_inner_prefix:
  "bound < length xs \<Longrightarrow> m \<le> bound \<Longrightarrow> \<exists>m'\<le>bound. bubble_inner bound j xs ! m = xs ! m'"
proof (induction bound j xs rule: bubble_inner.induct)
  case (1 bound j xs)
  show ?case
  proof (cases "j < bound")
    case False
    then show ?thesis using "1.prems" by (subst bubble_inner_unfold) auto
  next
    case True
    have "\<exists>m'\<le>bound. bubble_inner bound (j + 1) (swap_step xs j) ! m = swap_step xs j ! m'"
      using "1.IH" [folded swap_step_def, OF True] "1.prems" by simp
    then obtain m' where m': "m' \<le> bound"
      "bubble_inner bound (j + 1) (swap_step xs j) ! m = swap_step xs j ! m'" by blast
    from True m'(1) "1.prems"(1) have "\<exists>m''\<le>bound. swap_step xs j ! m' = xs ! m''"
      by (intro swap_step_prefix) simp_all
    with m'(2) show ?thesis
      using True by (subst bubble_inner_unfold) simp
  qed
qed

lemma bubble_inner_least:
  "bound < length xs \<Longrightarrow> j \<le> bound \<Longrightarrow>
   (\<forall>m<j. p_dist_sq (xs ! j) \<le> p_dist_sq (xs ! m)) \<Longrightarrow>
   m \<le> bound \<Longrightarrow>
   p_dist_sq (bubble_inner bound j xs ! bound) \<le> p_dist_sq (bubble_inner bound j xs ! m)"
proof (induction bound j xs rule: bubble_inner.induct)
  case (1 bound j xs)
  show ?case
  proof (cases "j < bound")
    case False
    with "1.prems" have "j = bound" by simp
    with "1.prems" show ?thesis
      by (subst (1 2) bubble_inner_unfold) (cases "m = bound"; simp)
  next
    case True
    with "1.prems" have len: "j + 1 < length xs" by simp
    have inv: "\<forall>m<j + 1. p_dist_sq (swap_step xs j ! (j + 1)) \<le> p_dist_sq (swap_step xs j ! m)"
    proof (intro allI impI)
      fix m assume "m < j + 1"
      show "p_dist_sq (swap_step xs j ! (j + 1)) \<le> p_dist_sq (swap_step xs j ! m)"
      proof (cases "m = j")
        case True
        then show ?thesis using swap_step_pair [OF len] by simp
      next
        case False
        with \<open>m < j + 1\<close> have "m < j" by simp
        then have "swap_step xs j ! m = xs ! m" by (simp add: swap_step_other)
        moreover have "p_dist_sq (xs ! j) \<le> p_dist_sq (xs ! m)"
          using "1.prems"(3) \<open>m < j\<close> by simp
        ultimately show ?thesis
          using swap_step_pair [OF len] by simp
      qed
    qed
    have "p_dist_sq (bubble_inner bound (j + 1) (swap_step xs j) ! bound)
        \<le> p_dist_sq (bubble_inner bound (j + 1) (swap_step xs j) ! m)"
      using "1.IH" [folded swap_step_def, OF True _ _ inv "1.prems"(4)] "1.prems"(1) True by simp
    then show ?thesis
      using True by (subst (1 2) bubble_inner_unfold) simp
  qed
qed

lemma bubble_pass_tail_sorted:
  assumes "tail_sorted i xs" and "i < length xs - 1"
  shows "tail_sorted (i + 1) (bubble_inner (length xs - i - 1) 0 xs)"
proof -
  define bound where "bound = length xs - i - 1"
  define ys where "ys = bubble_inner bound 0 xs"
  from assms(2) have bound: "bound < length xs" "length xs - (i + 1) = bound" "length xs - i = bound + 1"
    by (simp_all add: bound_def)
  have len: "length ys = length xs" by (simp add: ys_def bubble_inner_length)
  have "p_dist_sq (ys ! b) \<le> p_dist_sq (ys ! a)" if "a < b" "b < length xs" "bound \<le> b" for a b
  proof (cases "b = bound")
    case True
    have "p_dist_sq (bubble_inner bound 0 xs ! bound) \<le> p_dist_sq (bubble_inner bound 0 xs ! a)"
      using that True by (intro bubble_inner_least [OF bound(1)]) simp_all
    then show ?thesis
      using True by (simp add: ys_def)
  next
    case False
    with that have b: "bound < b" by simp
    then have yb: "ys ! b = xs ! b"
      unfolding ys_def by (intro bubble_inner_other [OF bound(1)]) simp
    show ?thesis
    proof (cases "bound < a")
      case True
      then have "ys ! a = xs ! a"
        unfolding ys_def by (intro bubble_inner_other [OF bound(1)]) simp
      with yb assms(1) that b True show ?thesis
        by (simp add: tail_sorted_def bound(3))
    next
      case False
      then have "a \<le> bound" by simp
      then obtain a' where a': "a' \<le> bound" "ys ! a = xs ! a'"
        unfolding ys_def using bubble_inner_prefix [OF bound(1)] by blast
      with b have "a' < b" by simp
      with yb a' assms(1) that b show ?thesis
        by (simp add: tail_sorted_def bound(3))
    qed
  qed
  then show ?thesis
    unfolding tail_sorted_def len bound(2) ys_def [symmetric] bound_def [symmetric] by blast
qed

lemma bubble_outer_props:
  "processed_count = length xs \<Longrightarrow> tail_sorted i xs \<Longrightarrow>
   length (bubble_outer processed_count i xs) = length xs \<and>
   (\<forall>d. filter (\<lambda>r. p_dist_sq r = d) (bubble_outer processed_count i xs) = filter (\<lambda>r. p_dist_sq r = d) xs) \<and>
   (\<exists>i'. processed_count - 1 \<le> i' \<and> tail_sorted i' (bubble_outer processed_count i xs))"
proof (induction processed_count i xs rule: bubble_outer.induct)
  case (1 processed_count i xs)
  show ?case
  proof (cases "i < processed_count - 1")
    case False
    then have "bubble_outer processed_count i xs = xs"
      by (subst bubble_outer.simps) simp
    moreover from False have "processed_count - 1 \<le> i" by simp
    ultimately show ?thesis using "1.prems" by auto
  next
    case True
    define ys where "ys = bubble_inner (processed_count - i - 1) 0 xs"
    have unfold: "bubble_outer processed_count i xs = bubble_outer processed_count (i + 1) ys"
      using True by (subst bubble_outer.simps) (simp add: ys_def)
    have len: "length ys = length xs" by (simp add: ys_def bubble_inner_length)
    have ts: "tail_sorted (i + 1) ys"
      using bubble_pass_tail_sorted [of i xs] "1.prems" True by (simp add: ys_def)
    have st: "filter (\<lambda>r. p_dist_sq r = d) ys = filter (\<lambda>r. p_dist_sq r = d) xs" for d
      unfolding ys_def using True "1.prems"(1) by (intro bubble_inner_stable) simp
    from "1.IH" [OF True, folded ys_def] len ts "1.prems"(1)
    have "length (bubble_outer processed_count (i + 1) ys) = length ys \<and>
      (\<forall>d. filter (\<lambda>r. p_dist_sq r = d) (bubble_outer processed_count (i + 1) ys) = filter (\<lambda>r. p_dist_sq r = d) ys) \<and>
      (\<exists>i'. processed_count - 1 \<le> i' \<and> tail_sorted i' (bubble_outer processed_count (i + 1) ys))"
      by simp
    then show ?thesis
      unfolding unfold len using st by simp
  qed
qed

lemma bubble_sort_length: "length (bubble_sort xs) = length xs"
  using bubble_outer_props [of "length xs" xs 0] by (simp add: bubble_sort_def tail_sorted_def)

lemma bubble_sort_stable:
  "filter (\<lambda>r. p_dist_sq r = d) (bubble_sort xs) = filter (\<lambda>r. p_dist_sq r = d) xs"
  using bubble_outer_props [of "length xs" xs 0] by (simp add: bubble_sort_def tail_sorted_def)

lemma bubble_sort_sorted:
  "sorted_wrt (\<lambda>a b. p_dist_sq a \<ge> p_dist_sq b) (bubble_sort xs)"
proof -
  from bubble_outer_props [of "length xs" xs 0]
  obtain i' where i': "length xs - 1 \<le> i'" "tail_sorted i' (bubble_sort xs)"
    by (auto simp: bubble_sort_def tail_sorted_def)
  have "p_dist_sq (bubble_sort xs ! b) \<le> p_dist_sq (bubble_sort xs ! a)"
    if "a < b" "b < length (bubble_sort xs)" for a b
  proof -
    from that i'(1) have "length (bubble_sort xs) - i' \<le> b"
      by (simp add: bubble_sort_length)
    with i'(2) that show ?thesis by (simp add: tail_sorted_def)
  qed
  then show ?thesis
    by (simp add: sorted_wrt_iff_nth_less)
qed

section \<open>The output buffer, the angles and the collected list\<close>

lemma write_output_spec:
  "write_output xs i out k =
     (if int i * 6 \<le> k \<and> k < int (length xs) * 6
      then encode_record (xs ! nat (k div 6)) ! nat (k mod 6) else out k)"
proof (induction xs i out rule: write_output.induct)
  case (1 xs i out)
  show ?case
  proof (cases "i < length xs")
    case False
    then show ?thesis by (subst write_output.simps) auto
  next
    case True
    define out' where "out' = out
                 (int i * 6 := real_of_int (p_obstacle_id (xs ! i)),
                  int i * 6 + 1 := p_dx (xs ! i),
                  int i * 6 + 2 := p_dy (xs ! i),
                  int i * 6 + 3 := p_dist_sq (xs ! i),
                  int i * 6 + 4 := real_of_int (p_is_between (xs ! i)),
                  int i * 6 + 5 := real_of_int (p_type (xs ! i)))"
    have unfold: "write_output xs i out = write_output xs (i + 1) out'"
      using True by (subst write_output.simps) (simp add: out'_def Let_def)
    have ih: "write_output xs (i + 1) out' k =
     (if int (i + 1) * 6 \<le> k \<and> k < int (length xs) * 6
      then encode_record (xs ! nat (k div 6)) ! nat (k mod 6) else out' k)"
      using "1.IH" [OF True refl, folded out'_def] by simp
    consider "k < int i * 6" | "int (i + 1) * 6 \<le> k" | c where "k = int i * 6 + c" "0 \<le> c" "c < 6"
      by (cases "k < int i * 6"; cases "int (i + 1) * 6 \<le> k") (auto intro: that(3) [of "k - int i * 6"])
    then show ?thesis
    proof cases
      case 1
      then show ?thesis unfolding unfold ih by (simp add: out'_def)
    next
      case 2
      then show ?thesis unfolding unfold ih by (simp add: out'_def)
    next
      case 3
      then have c: "c = 0 \<or> c = 1 \<or> c = 2 \<or> c = 3 \<or> c = 4 \<or> c = 5" by auto
      from 3 have dm: "k div 6 = int i" "k mod 6 = c" by simp_all
      from 3 True have range: "int i * 6 \<le> k \<and> k < int (length xs) * 6" "\<not> int (i + 1) * 6 \<le> k"
        by auto
      show ?thesis
        unfolding unfold ih using range c dm 3(1)
        by (auto simp: out'_def encode_record_def)
    qed
  qed
qed

lemma output_tuple_write_output:
  assumes "i < length xs"
  shows "output_tuple (write_output xs 0 out) i = encode_record (xs ! i)"
proof -
  have "write_output xs 0 out (int i * 6 + c) = encode_record (xs ! i) ! nat c" if "0 \<le> c" "c < 6" for c
  proof -
    from that have "(int i * 6 + c) div 6 = int i" "(int i * 6 + c) mod 6 = c" by simp_all
    moreover from that assms have "int 0 * 6 \<le> int i * 6 + c \<and> int i * 6 + c < int (length xs) * 6"
      by auto
    ultimately show ?thesis by (simp add: write_output_spec)
  qed
  from this [of 0] this [of 1] this [of 2] this [of 3] this [of 4] this [of 5]
  show ?thesis
    by (simp add: output_tuple_def encode_record_def upto_rec1)
qed




lemma collect_visible_spec:
  assumes "obstacle_count s \<le> 0 \<or> (map_width \<noteq> 0 \<and> map_height \<noteq> 0)"
  shows "collect_visible camera_x camera_y camera_angle player_x player_y player_height fov
           max_render_distance map_width map_height s
       = Inr (take MAX_PROCESSED
           (map (\<lambda>(i, tx, ty). image_record (make_view camera_x camera_y camera_angle player_x player_y
                    player_height fov max_render_distance map_width map_height) (obstacles s i) tx ty)
             (filter (\<lambda>(i, tx, ty). image_passes (make_view camera_x camera_y camera_angle player_x player_y
                    player_height fov max_render_distance map_width map_height) (obstacles s i) tx ty)
               (all_images s \<lceil>1.2 * max_render_distance / map_width\<rceil>
                             \<lceil>1.2 * max_render_distance / map_height\<rceil>))))"
proof -
  let ?v = "make_view camera_x camera_y camera_angle player_x player_y
                    player_height fov max_render_distance map_width map_height"
  have w: "v_map_width ?v = map_width" "v_map_height ?v = map_height"
    by (simp_all add: make_view_def Let_def)
  show ?thesis
  proof (cases "obstacle_count s \<le> 0")
    case True
    then have "scan_obstacles ?v (max_render_distance * 1.2) s 0 [] = Inr []"
      by (subst scan_obstacles.simps) simp
    moreover from True have "all_images s tx ty = []" for tx ty
      by (simp add: all_images_def)
    ultimately show ?thesis
      by (simp add: collect_visible_def Let_def)
  next
    case False
    with assms have nz: "map_width \<noteq> 0" "map_height \<noteq> 0" by simp_all
    have t: "tiles (max_render_distance * 1.2) (v_map_width ?v) = Inr \<lceil>1.2 * max_render_distance / map_width\<rceil>"
      "tiles (max_render_distance * 1.2) (v_map_height ?v) = Inr \<lceil>1.2 * max_render_distance / map_height\<rceil>"
      using nz by (simp_all add: tiles_def w mult.commute)
    show ?thesis
      unfolding collect_visible_def Let_def
      by (subst scan_obstacles_spec [OF t]) (simp_all add: registry_records_images)
  qed
qed

lemma collect_visible_fault:
  assumes "0 < obstacle_count s" and "map_width = 0 \<or> map_height = 0"
  shows "collect_visible camera_x camera_y camera_angle player_x player_y player_height fov
           max_render_distance map_width map_height s = Inl Non_Finite_Conversion"
  unfolding collect_visible_def Let_def
  using assms by (intro scan_obstacles_fault) (simp_all add: make_view_def Let_def)

section \<open>Visibility: which images are returned\<close>

lemma pair_collect:
  "collect_visible 0 10 0 15 10 0 1 50 100 100 pair_kernel = Inr [near_record, far_record]"
  by (subst collect_visible_spec)
     (simp_all add: pair_kernel_def all_images_def image_passes_def image_record_def make_view_def
        image_dx_def image_dy_def forward_dist_def folded_angle_diff_def atan2f_def wrap_half_def
        scenario_obstacle_def far_obstacle_def near_record_def far_record_def Let_def MAX_PROCESSED_def
        upto.simps)

lemma pair_sort: "bubble_sort [near_record, far_record] = [far_record, near_record]"
  by (simp add: bubble_sort_def bubble_outer.simps bubble_inner.simps near_record_def far_record_def)

lemma pair_call:
  "process_visible_obstacles 0 10 0 0 15 10 0 1 50 100 100 (Some zero_buffer) pair_kernel
     = Inr (2, Some (write_output [far_record, near_record] 0 zero_buffer),
            pair_kernel\<lparr>processed := [far_record, near_record]\<rparr>)"
  by (simp add: process_visible_obstacles_def pair_collect pair_sort Let_def) (simp add: pair_kernel_def)







lemma bubble_sort_set: "set (bubble_sort xs) = set xs"
proof -
  have "r \<in> set (bubble_sort xs) \<longleftrightarrow> r \<in> set xs" for r
  proof -
    have "r \<in> set (bubble_sort xs)
        \<longleftrightarrow> r \<in> set (filter (\<lambda>q. p_dist_sq q = p_dist_sq r) (bubble_sort xs))"
      by simp
    also have "\<dots> \<longleftrightarrow> r \<in> set (filter (\<lambda>q. p_dist_sq q = p_dist_sq r) xs)"
      by (simp only: bubble_sort_stable)
    also have "\<dots> \<longleftrightarrow> r \<in> set xs"
      by simp
    finally show ?thesis .
  qed
  then show ?thesis by (intro set_eqI)
qed

lemma collect_visible_defined:
  assumes "collect_visible camera_x camera_y camera_angle player_x player_y player_height fov
             max_render_distance map_width map_height s = Inr emitted"
  shows "obstacle_count s \<le> 0 \<or> (map_width \<noteq> 0 \<and> map_height \<noteq> 0)"
proof (rule ccontr)
  assume "\<not> ?thesis"
  then have "0 < obstacle_count s" "map_width = 0 \<or> map_height = 0" by auto
  from collect_visible_fault [OF this] assms show False by simp
qed

lemma process_visible_obstacles_unfold:
  assumes "obstacle_count s \<noteq> 0"
    and "process_visible_obstacles camera_x camera_y camera_z camera_angle player_x player_y player_height
           fov max_render_distance map_width map_height (Some out) s = Inr (n, out', s')"
  shows "\<exists>emitted. collect_visible camera_x camera_y camera_angle player_x player_y player_height fov
             max_render_distance map_width map_height s = Inr emitted \<and>
           n = int (length emitted) \<and>
           out' = Some (write_output (bubble_sort emitted) 0 out) \<and>
           s' = s\<lparr>processed := bubble_sort emitted\<rparr>"
  using assms
  by (auto simp: process_visible_obstacles_def Let_def bubble_sort_length split: sum.splits)

lemma all_images_index:
  "(i, tx, ty) \<in> set (all_images s tiles_x tiles_y) \<Longrightarrow> 0 \<le> i \<and> i < obstacle_count s"
  by (auto simp: all_images_def)


lemma emitted_images:
  assumes "collect_visible camera_x camera_y camera_angle player_x player_y player_height fov
             max_render_distance map_width map_height s = Inr emitted"
    and "r \<in> set emitted"
  shows "\<exists>i tx ty. 0 \<le> i \<and> i < obstacle_count s \<and>
           image_passes (make_view camera_x camera_y camera_angle player_x player_y player_height fov
              max_render_distance map_width map_height) (obstacles s i) tx ty \<and>
           r = image_record (make_view camera_x camera_y camera_angle player_x player_y player_height fov
              max_render_distance map_width map_height) (obstacles s i) tx ty"
proof -
  let ?v = "make_view camera_x camera_y camera_angle player_x player_y player_height fov
              max_render_distance map_width map_height"
  let ?imgs = "all_images s \<lceil>1.2 * max_render_distance / map_width\<rceil> \<lceil>1.2 * max_render_distance / map_height\<rceil>"
  from collect_visible_spec [OF collect_visible_defined [OF assms(1)]] assms(1)
  have "emitted = take MAX_PROCESSED
           (map (\<lambda>(i, tx, ty). image_record ?v (obstacles s i) tx ty)
             (filter (\<lambda>(i, tx, ty). image_passes ?v (obstacles s i) tx ty) ?imgs))"
    by simp
  with assms(2) have "r \<in> set (map (\<lambda>(i, tx, ty). image_record ?v (obstacles s i) tx ty)
             (filter (\<lambda>(i, tx, ty). image_passes ?v (obstacles s i) tx ty) ?imgs))"
    by (metis in_set_takeD)
  then obtain i tx ty where "(i, tx, ty) \<in> set ?imgs" "image_passes ?v (obstacles s i) tx ty"
    "r = image_record ?v (obstacles s i) tx ty"
    by auto
  with all_images_index [of i tx ty] show ?thesis by blast
qed




text \<open>
  C2. For a call with a non-empty registry and a non-null output buffer, the
  returned records (the list left in \<open>processed\<close>, written as flat 6-tuples to the
  output buffer) are sorted by non-increasing \<open>dist_sq\<close>, and for every value of
  \<open>dist_sq\<close> the records with that value appear in the order in which the scan
  inserted them. The list collected by the scan has at most \<open>MAX_PROCESSED\<close> entries;
  whether or not the scan stopped at the cap, all of it is sorted and returned.
\<close>

theorem process_visible_obstacles_sorted:
  assumes "obstacle_count s \<noteq> 0"
    and "process_visible_obstacles camera_x camera_y camera_z camera_angle player_x player_y player_height
           fov max_render_distance map_width map_height (Some out) s = Inr (n, out', s')"
  shows "\<exists>emitted ob.
           collect_visible camera_x camera_y camera_angle player_x player_y player_height fov
             max_render_distance map_width map_height s = Inr emitted \<and>
           length emitted \<le> MAX_PROCESSED \<and>
           length (processed s') = length emitted \<and>
           n = int (length (processed s')) \<and>
           out' = Some ob \<and>
           (\<forall>i<length (processed s'). output_tuple ob i = encode_record (processed s' ! i)) \<and>
           sorted_wrt (\<lambda>a b. p_dist_sq a \<ge> p_dist_sq b) (processed s') \<and>
           (\<forall>i j. i \<le> j \<and> j < length (processed s') \<longrightarrow> ob (int j * 6 + 3) \<le> ob (int i * 6 + 3)) \<and>
           (\<forall>d. filter (\<lambda>r. p_dist_sq r = d) (processed s') = filter (\<lambda>r. p_dist_sq r = d) emitted)"
proof -
  from process_visible_obstacles_unfold [OF assms]
  obtain emitted where em: "collect_visible camera_x camera_y camera_angle player_x player_y player_height fov
             max_render_distance map_width map_height s = Inr emitted"
    and n: "n = int (length emitted)"
    and out': "out' = Some (write_output (bubble_sort emitted) 0 out)"
    and s': "s' = s\<lparr>processed := bubble_sort emitted\<rparr>"
    by blast
  let ?ob = "write_output (bubble_sort emitted) 0 out"
  have p: "processed s' = bubble_sort emitted" by (simp add: s')
  have cap: "length emitted \<le> MAX_PROCESSED"
    using collect_visible_spec [OF collect_visible_defined [OF em]] em by auto
  have len: "length (processed s') = length emitted"
    by (simp add: p bubble_sort_length)
  have tuples: "\<forall>i<length (processed s'). output_tuple ?ob i = encode_record (processed s' ! i)"
    by (simp add: p output_tuple_write_output)
  have srt: "sorted_wrt (\<lambda>a b. p_dist_sq a \<ge> p_dist_sq b) (processed s')"
    unfolding p by (rule bubble_sort_sorted)
  have slot: "?ob (int j * 6 + 3) = p_dist_sq (processed s' ! j)" if "j < length (processed s')" for j
  proof -
    have "(int j * 6 + 3) div 6 = int j" "(int j * 6 + 3) mod 6 = 3" by simp_all
    moreover from that have "int 0 * 6 \<le> int j * 6 + 3 \<and> int j * 6 + 3 < int (length (bubble_sort emitted)) * 6"
      by (auto simp: p)
    ultimately show ?thesis
      by (simp add: write_output_spec p encode_record_def)
  qed
  have buf: "?ob (int j * 6 + 3) \<le> ?ob (int i * 6 + 3)" if "i \<le> j" "j < length (processed s')" for i j
  proof (cases "i = j")
    case True
    then show ?thesis by simp
  next
    case False
    with that have "i < j" by simp
    with srt that have "p_dist_sq (processed s' ! j) \<le> p_dist_sq (processed s' ! i)"
      by (simp add: sorted_wrt_iff_nth_less)
    with that slot [of i] slot [of j] show ?thesis by simp
  qed
  have stable: "\<forall>d. filter (\<lambda>r. p_dist_sq r = d) (processed s') = filter (\<lambda>r. p_dist_sq r = d) emitted"
    by (simp add: p bubble_sort_stable)
  from em cap len n out' tuples srt buf stable show ?thesis
    by (intro exI [of _ emitted] exI [of _ ?ob]) simp
qed

theorem process_visible_obstacles_sorted_witness:
  "obstacle_count pair_kernel \<noteq> 0 \<and>
   process_visible_obstacles 0 10 0 0 15 10 0 1 50 100 100 (Some zero_buffer) pair_kernel
     = Inr (2, Some (write_output [far_record, near_record] 0 zero_buffer),
            pair_kernel\<lparr>processed := [far_record, near_record]\<rparr>) \<and>
   collect_visible 0 10 0 15 10 0 1 50 100 100 pair_kernel = Inr [near_record, far_record] \<and>
   write_output [far_record, near_record] 0 zero_buffer (int 1 * 6 + 3)
     \<le> write_output [far_record, near_record] 0 zero_buffer (int 0 * 6 + 3)"
proof -
  have h1: "obstacle_count pair_kernel \<noteq> 0" by (simp add: pair_kernel_def)
  from process_visible_obstacles_sorted [OF h1 pair_call]
  have "\<forall>i j. i \<le> j \<and> j < length [far_record, near_record] \<longrightarrow>
          write_output [far_record, near_record] 0 zero_buffer (int j * 6 + 3)
            \<le> write_output [far_record, near_record] 0 zero_buffer (int i * 6 + 3)"
    by auto
  then have "write_output [far_record, near_record] 0 zero_buffer (int 1 * 6 + 3)
     \<le> write_output [far_record, near_record] 0 zero_buffer (int 0 * 6 + 3)"
    by (metis length_Cons list.size(3) zero_le One_nat_def lessI Suc_1 one_less_numeral_iff semiring_norm(76))
  with h1 pair_call pair_collect show ?thesis by blast
qed

lemma make_view_player_t:
  "v_player_t (make_view camera_x camera_y camera_angle player_x player_y player_height fov
                 max_render_distance map_width map_height)
     = player_forward_dist camera_x camera_y camera_angle player_x player_y map_width map_height"
  by (simp add: make_view_def player_forward_dist_def wrap_half_def Let_def)

text \<open>
  C3. Every record returned by a call with a non-empty registry and a non-null
  output buffer is the record of an image of a registered obstacle, and its flag
  \<open>is_between\<close> (0 or 1, written to slot 4 of its tuple) is 1 exactly when the player's
  height is below that obstacle's height and the image's forward distance lies
  strictly between \<open>0.5\<close> and the player's forward distance.
\<close>

theorem process_visible_obstacles_occlusion:
  assumes "obstacle_count s \<noteq> 0"
    and "process_visible_obstacles camera_x camera_y camera_z camera_angle player_x player_y player_height
           fov max_render_distance map_width map_height (Some out) s = Inr (n, out', s')"
  shows "(\<forall>r\<in>set (processed s').
            (p_is_between r = 0 \<or> p_is_between r = 1) \<and>
            (\<exists>i tx ty. 0 \<le> i \<and> i < obstacle_count s \<and>
               p_obstacle_id r = obs_id (obstacles s i) \<and>
               p_type r = obs_type (obstacles s i) \<and>
               p_dx r = obs_x (obstacles s i) + real_of_int tx * map_width - camera_x \<and>
               p_dy r = obs_y (obstacles s i) + real_of_int ty * map_height - camera_y \<and>
               (p_is_between r = 1 \<longleftrightarrow>
                  player_height < obs_height (obstacles s i) \<and>
                  0.5 < p_dx r * cos camera_angle + p_dy r * sin camera_angle \<and>
                  p_dx r * cos camera_angle + p_dy r * sin camera_angle
                    < player_forward_dist camera_x camera_y camera_angle player_x player_y map_width map_height))) \<and>
         (\<exists>ob. out' = Some ob \<and>
            (\<forall>i<length (processed s'). ob (int i * 6 + 4) = real_of_int (p_is_between (processed s' ! i))))"
proof -
  let ?v = "make_view camera_x camera_y camera_angle player_x player_y player_height fov
              max_render_distance map_width map_height"
  from process_visible_obstacles_unfold [OF assms]
  obtain emitted where em: "collect_visible camera_x camera_y camera_angle player_x player_y player_height fov
             max_render_distance map_width map_height s = Inr emitted"
    and out': "out' = Some (write_output (bubble_sort emitted) 0 out)"
    and s': "s' = s\<lparr>processed := bubble_sort emitted\<rparr>"
    by blast
  have p: "processed s' = bubble_sort emitted" by (simp add: s')
  have v: "v_cos_a ?v = cos camera_angle" "v_sin_a ?v = sin camera_angle"
    "v_player_height ?v = player_height" "v_map_width ?v = map_width" "v_map_height ?v = map_height"
    "v_camera_x ?v = camera_x" "v_camera_y ?v = camera_y"
    by (simp_all add: make_view_def Let_def)
  have one: "(p_is_between r = 0 \<or> p_is_between r = 1) \<and>
            (\<exists>i tx ty. 0 \<le> i \<and> i < obstacle_count s \<and>
               p_obstacle_id r = obs_id (obstacles s i) \<and>
               p_type r = obs_type (obstacles s i) \<and>
               p_dx r = obs_x (obstacles s i) + real_of_int tx * map_width - camera_x \<and>
               p_dy r = obs_y (obstacles s i) + real_of_int ty * map_height - camera_y \<and>
               (p_is_between r = 1 \<longleftrightarrow>
                  player_height < obs_height (obstacles s i) \<and>
                  0.5 < p_dx r * cos camera_angle + p_dy r * sin camera_angle \<and>
                  p_dx r * cos camera_angle + p_dy r * sin camera_angle
                    < player_forward_dist camera_x camera_y camera_angle player_x player_y map_width map_height))"
    if "r \<in> set (processed s')" for r
  proof -
    from that have "r \<in> set emitted" by (simp add: p bubble_sort_set)
    from emitted_images [OF em this] obtain i tx ty
      where i: "0 \<le> i" "i < obstacle_count s"
        and r: "r = image_record ?v (obstacles s i) tx ty"
      by blast
    have flag: "p_is_between r = 0 \<or> p_is_between r = 1"
      by (simp add: r image_record_def Let_def)
    have fields: "p_obstacle_id r = obs_id (obstacles s i)" "p_type r = obs_type (obstacles s i)"
      "p_dx r = obs_x (obstacles s i) + real_of_int tx * map_width - camera_x"
      "p_dy r = obs_y (obstacles s i) + real_of_int ty * map_height - camera_y"
      by (simp_all add: r image_record_def Let_def image_dx_def image_dy_def v)
    have iff: "p_is_between r = 1 \<longleftrightarrow>
                  player_height < obs_height (obstacles s i) \<and>
                  0.5 < p_dx r * cos camera_angle + p_dy r * sin camera_angle \<and>
                  p_dx r * cos camera_angle + p_dy r * sin camera_angle
                    < player_forward_dist camera_x camera_y camera_angle player_x player_y map_width map_height"
      by (simp add: r image_record_def Let_def forward_dist_def v make_view_player_t)
    from i flag fields iff show ?thesis by blast
  qed
  have slot: "write_output (bubble_sort emitted) 0 out (int i * 6 + 4) = real_of_int (p_is_between (processed s' ! i))"
    if "i < length (processed s')" for i
  proof -
    have "(int i * 6 + 4) div 6 = int i" "(int i * 6 + 4) mod 6 = 4" by simp_all
    moreover from that have "int 0 * 6 \<le> int i * 6 + 4 \<and> int i * 6 + 4 < int (length (bubble_sort emitted)) * 6"
      by (auto simp: p)
    ultimately show ?thesis
      by (simp add: write_output_spec p encode_record_def)
  qed
  from one slot out' show ?thesis by blast
qed

theorem process_visible_obstacles_occlusion_witness:
  "obstacle_count pair_kernel \<noteq> 0 \<and>
   process_visible_obstacles 0 10 0 0 15 10 0 1 50 100 100 (Some zero_buffer) pair_kernel
     = Inr (2, Some (write_output [far_record, near_record] 0 zero_buffer),
            pair_kernel\<lparr>processed := [far_record, near_record]\<rparr>) \<and>
   player_forward_dist 0 10 0 15 10 100 100 = 15 \<and>
   p_is_between near_record = 1 \<and> p_is_between far_record = 0 \<and>
   write_output [far_record, near_record] 0 zero_buffer (int 1 * 6 + 4) = real_of_int (p_is_between near_record)"
proof -
  have h1: "obstacle_count pair_kernel \<noteq> 0" by (simp add: pair_kernel_def)
  from process_visible_obstacles_occlusion [OF h1 pair_call]
  have "\<forall>i<length [far_record, near_record].
          write_output [far_record, near_record] 0 zero_buffer (int i * 6 + 4)
            = real_of_int (p_is_between ([far_record, near_record] ! i))"
    by auto
  then have "write_output [far_record, near_record] 0 zero_buffer (int 1 * 6 + 4)
            = real_of_int (p_is_between ([far_record, near_record] ! 1))"
    by (metis length_Cons list.size(3) One_nat_def lessI Suc_1)
  moreover have "player_forward_dist 0 10 0 15 10 100 100 = 15"
    by (simp add: player_forward_dist_def Let_def)
  moreover have "p_is_between near_record = 1" "p_is_between far_record = 0"
    by (simp_all add: near_record_def far_record_def)
  ultimately show ?thesis
    using h1 pair_call by simp
qed

text \<open>
  C10. A visibility call leaves the array \<open>obstacles\<close> and \<open>obstacle_count\<close> as they
  were (it only overwrites \<open>processed\<close> and the output buffer), and so do a collision
  query and a count query, which return the state they were given.
\<close>

theorem registry_unchanged_by_queries:
  "(process_visible_obstacles camera_x camera_y camera_z camera_angle player_x player_y player_height
      fov max_render_distance map_width map_height output_buffer s = Inr (n, out', s') \<longrightarrow>
      obstacles s' = obstacles s \<and> obstacle_count s' = obstacle_count s) \<and>
   obstacles (snd (check_collision px py player_radius ph new_x new_y mw mh s)) = obstacles s \<and>
   obstacle_count (snd (check_collision px py player_radius ph new_x new_y mw mh s)) = obstacle_count s \<and>
   obstacles (snd (get_obstacle_count s)) = obstacles s \<and>
   obstacle_count (snd (get_obstacle_count s)) = obstacle_count s"
  by (auto simp: process_visible_obstacles_def check_collision_def get_obstacle_count_def Let_def
      split: option.splits if_splits sum.splits)

theorem registry_unchanged_by_queries_witness:
  "process_visible_obstacles 0 10 0 0 15 10 0 1 50 100 100 (Some zero_buffer) pair_kernel
     = Inr (2, Some (write_output [far_record, near_record] 0 zero_buffer),
            pair_kernel\<lparr>processed := [far_record, near_record]\<rparr>) \<and>
   obstacles (pair_kernel\<lparr>processed := [far_record, near_record]\<rparr>) = obstacles pair_kernel \<and>
   obstacle_count (pair_kernel\<lparr>processed := [far_record, near_record]\<rparr>) = 2 \<and>
   processed (pair_kernel\<lparr>processed := [far_record, near_record]\<rparr>) \<noteq> processed pair_kernel"
proof -
  from registry_unchanged_by_queries
    [of 0 10 0 0 15 10 0 1 50 100 100 "Some zero_buffer" pair_kernel 2
        "Some (write_output [far_record, near_record] 0 zero_buffer)"
        "pair_kernel\<lparr>processed := [far_record, near_record]\<rparr>"] pair_call
  have "obstacles (pair_kernel\<lparr>processed := [far_record, near_record]\<rparr>) = obstacles pair_kernel \<and>
        obstacle_count (pair_kernel\<lparr>processed := [far_record, near_record]\<rparr>) = obstacle_count pair_kernel"
    by blast
  then show ?thesis
    using pair_call by (simp add: pair_kernel_def)
qed

section \<open>Rasterizer: step table and quality mode\<close>

lemma row_step_ge_1: "1 \<le> row_step sc l y"
  by (simp add: row_step_def Let_def)

text \<open>
  C8. The step of a row is the entry of the decision table for the row's band (far:
  \<open>y + 1 \<le> 0.1 * dstH\<close>; mid: up to \<open>0.6 * dstH\<close>; near: the rest), keyed by ``adaptive and
  layered'', ``rotating or \<open>|tilt| > 0.0001\<close>'' and ``moving'', or \<open>baseStep\<close> when the two
  flags are not both set, clamped to at least 1; both source files compute the same step.
\<close>

theorem row_step_table:
  "row_step sc l y =
     max 1 (table_step (band_of (g_ground_h sc) y)
              (l_dynamic_res l \<noteq> 0 \<and> l_layered_res l \<noteq> 0)
              (l_state_rot l \<noteq> 0 \<or> \<bar>l_tilt l\<bar> > 0.0001)
              (l_state_move l \<noteq> 0)
              (l_base_res l)) \<and>
   row_step_ground_renderer sc l y = row_step sc l y \<and>
   1 \<le> row_step sc l y"
  by (simp add: row_step_def row_step_ground_renderer_def table_step_def band_of_def Let_def max_def
      algebra_simps)

theorem row_step_table_witness:
  "band_of (g_ground_h tall_scene) 0 = Far \<and> band_of (g_ground_h tall_scene) 5 = Mid \<and>
   band_of (g_ground_h tall_scene) 20 = Near \<and>
   row_step tall_scene lod_moving 0 = 4 \<and> row_step tall_scene lod_moving 5 = 4 \<and>
   row_step tall_scene lod_moving 20 = 6 \<and>
   row_step tall_scene lod_tilting 0 = 5 \<and> row_step tall_scene lod_tilting 5 = 5 \<and>
   row_step tall_scene lod_tilting 20 = 8"
proof -
  have b: "band_of (g_ground_h tall_scene) 0 = Far" "band_of (g_ground_h tall_scene) 5 = Mid"
    "band_of (g_ground_h tall_scene) 20 = Near"
    by (simp_all add: band_of_def tall_scene_def)
  from row_step_table [of tall_scene lod_moving 0] row_step_table [of tall_scene lod_moving 5]
    row_step_table [of tall_scene lod_moving 20]
  have m: "row_step tall_scene lod_moving 0 = 4" "row_step tall_scene lod_moving 5 = 4"
    "row_step tall_scene lod_moving 20 = 6"
    unfolding b by (simp_all add: table_step_def lod_moving_def)
  from row_step_table [of tall_scene lod_tilting 0] row_step_table [of tall_scene lod_tilting 5]
    row_step_table [of tall_scene lod_tilting 20]
  have t: "row_step tall_scene lod_tilting 0 = 5" "row_step tall_scene lod_tilting 5 = 5"
    "row_step tall_scene lod_tilting 20 = 8"
    unfolding b by (simp_all add: table_step_def lod_tilting_def)
  from b m t show ?thesis by blast
qed


lemma fast_mod_defined: "m \<noteq> 0 \<Longrightarrow> \<exists>r. fast_mod v m = Inr r"
  by (simp add: fast_mod_def Let_def)

lemma map_index_defined:
  "g_map_w sc \<noteq> 0 \<Longrightarrow> g_map_h sc \<noteq> 0 \<Longrightarrow> \<exists>src. map_index sc cur_x cur_y = Inr src"
  by (simp add: map_index_def fast_mod_def Let_def)


lemma store_pixel_mem:
  "mem (store_pixel t r g b buf) a =
     (if a = t + 3 then 255 else if a = t + 2 then b else if a = t + 1 then g else if a = t then r
      else mem buf a)"
  by (simp add: store_pixel_def store_def)

lemma store_pixel_written:
  "written (store_pixel t r g b buf) = written buf @ [t, t + 1, t + 2, t + 3]"
  by (simp add: store_pixel_def store_def)

lemma upto_four:
  fixes t hi :: int
  assumes "t + 3 \<le> hi"
  shows "[t, t + 1, t + 2, t + 3] @ [t + 4 .. hi] = [t .. hi]"
proof -
  have "[t .. hi] = t # [t + 1 .. hi]"
    using assms by (subst upto_rec1) (simp_all add: algebra_simps)
  also have "[t + 1 .. hi] = (t + 1) # [t + 2 .. hi]"
    using assms by (subst upto_rec1) (simp_all add: algebra_simps)
  also have "[t + 2 .. hi] = (t + 2) # [t + 3 .. hi]"
    using assms by (subst upto_rec1) (simp_all add: algebra_simps)
  also have "[t + 3 .. hi] = (t + 3) # [t + 4 .. hi]"
    using assms by (subst upto_rec1) (simp_all add: algebra_simps)
  finally show ?thesis by simp
qed




lemma row_start_mono:
  fixes gw :: int
  assumes "0 \<le> gw" and "y1 \<le> y2"
  shows "y1 * gw * 4 \<le> y2 * gw * 4"
  using assms by (simp add: mult_right_mono)

lemma row_next: "(y + 1) * gw * 4 = y * gw * 4 + gw * 4" for y gw :: int
  by (simp add: algebra_simps)

lemma upto_append:
  fixes i j k :: int
  assumes "i \<le> j + 1" and "j \<le> k"
  shows "[i .. j] @ [j + 1 .. k] = [i .. k]"
proof (cases "i \<le> j")
  case True
  with assms(2) show ?thesis by (simp add: upto_split2 [of i j k])
next
  case False
  with assms(1) have "i = j + 1" by simp
  then show ?thesis by simp
qed




section \<open>Rasterizer: performance mode copies the skipped rows\<close>

lemma store_mem: "mem (store a b buf) c = (if c = a then b else mem buf c)"
  by (simp add: store_def)

lemma store_written: "written (store a b buf) = written buf @ [a]"
  by (simp add: store_def)

lemma memcpy_bytes_spec:
  "0 \<le> k \<Longrightarrow> src + n \<le> dst \<Longrightarrow>
   written (memcpy_bytes dst src n k buf) = written buf @ [dst + k .. dst + n - 1] \<and>
   (\<forall>a. a < dst + k \<or> dst + n \<le> a \<longrightarrow> mem (memcpy_bytes dst src n k buf) a = mem buf a) \<and>
   (\<forall>j. k \<le> j \<and> j < n \<longrightarrow> mem (memcpy_bytes dst src n k buf) (dst + j) = mem buf (src + j))"
proof (induction dst src n k buf rule: memcpy_bytes.induct)
  case (1 dst src n k buf)
  show ?case
  proof (cases "k < n")
    case False
    then have "memcpy_bytes dst src n k buf = buf"
      by (subst memcpy_bytes.simps) simp
    with False show ?thesis by auto
  next
    case True
    define buf1 where "buf1 = store (dst + k) (mem buf (src + k)) buf"
    have unfold: "memcpy_bytes dst src n k buf = memcpy_bytes dst src n (k + 1) buf1"
      using True by (subst memcpy_bytes.simps) (simp add: buf1_def)
    from "1.prems" have k1: "0 \<le> k + 1" by simp
    note ih = "1.IH" [OF True k1 "1.prems"(2), folded buf1_def]
    from ih have wr: "written (memcpy_bytes dst src n (k + 1) buf1) = written buf1 @ [dst + (k + 1) .. dst + n - 1]"
      and frame: "\<And>a. a < dst + (k + 1) \<or> dst + n \<le> a \<Longrightarrow> mem (memcpy_bytes dst src n (k + 1) buf1) a = mem buf1 a"
      and content: "\<And>j. k + 1 \<le> j \<and> j < n \<Longrightarrow> mem (memcpy_bytes dst src n (k + 1) buf1) (dst + j) = mem buf1 (src + j)"
      by blast+
    have "[dst + k .. dst + n - 1] = (dst + k) # [dst + (k + 1) .. dst + n - 1]"
      using True by (subst upto_rec1) (simp_all add: algebra_simps)
    then have w: "written (memcpy_bytes dst src n k buf) = written buf @ [dst + k .. dst + n - 1]"
      unfolding unfold wr by (simp add: buf1_def store_written)
    have f: "mem (memcpy_bytes dst src n k buf) a = mem buf a" if "a < dst + k \<or> dst + n \<le> a" for a
    proof -
      from that True have "mem (memcpy_bytes dst src n (k + 1) buf1) a = mem buf1 a"
        by (intro frame) auto
      also from that True have "mem buf1 a = mem buf a"
        by (auto simp: buf1_def store_mem)
      finally show ?thesis unfolding unfold .
    qed
    have c: "mem (memcpy_bytes dst src n k buf) (dst + j) = mem buf (src + j)" if "k \<le> j \<and> j < n" for j
    proof (cases "j = k")
      case True
      have "mem (memcpy_bytes dst src n (k + 1) buf1) (dst + k) = mem buf1 (dst + k)"
        by (intro frame) simp
      also have "\<dots> = mem buf (src + k)" by (simp add: buf1_def store_mem)
      finally show ?thesis unfolding unfold True .
    next
      case False
      with that have "k + 1 \<le> j \<and> j < n" by simp
      then have "mem (memcpy_bytes dst src n (k + 1) buf1) (dst + j) = mem buf1 (src + j)"
        by (rule content)
      also from that "1.prems" have "src + j \<noteq> dst + k" by simp
      then have "mem buf1 (src + j) = mem buf (src + j)" by (simp add: buf1_def store_mem)
      finally show ?thesis unfolding unfold .
    qed
    from w f c show ?thesis by blast
  qed
qed

lemma perf_block_spec:
  "written (perf_block row_offset end_x r g b block_x buf)
     = written buf @ [row_offset + block_x * 4 .. row_offset + end_x * 4 - 1] \<and>
   (\<forall>a. a < row_offset + block_x * 4 \<or> row_offset + end_x * 4 \<le> a \<longrightarrow>
        mem (perf_block row_offset end_x r g b block_x buf) a = mem buf a)"
proof (induction row_offset end_x r g b block_x buf rule: perf_block.induct)
  case (1 row_offset end_x r g b block_x buf)
  show ?case
  proof (cases "block_x < end_x")
    case False
    then have "perf_block row_offset end_x r g b block_x buf = buf"
      by (subst perf_block.simps) simp
    with False show ?thesis by auto
  next
    case True
    define t where "t = row_offset + block_x * 4"
    define buf1 where "buf1 = store_pixel t r g b buf"
    have unfold: "perf_block row_offset end_x r g b block_x buf
        = perf_block row_offset end_x r g b (block_x + 1) buf1"
      using True by (subst perf_block.simps) (simp add: buf1_def t_def)
    note ih = "1.IH" [OF True, folded t_def, folded buf1_def]
    have e: "row_offset + (block_x + 1) * 4 = t + 4" by (simp add: t_def)
    have le: "t + 3 \<le> row_offset + end_x * 4 - 1" using True by (simp add: t_def)
    from ih have "written (perf_block row_offset end_x r g b (block_x + 1) buf1)
        = (written buf @ [t, t + 1, t + 2, t + 3]) @ [t + 4 .. row_offset + end_x * 4 - 1]"
      unfolding e by (simp add: buf1_def store_pixel_written)
    also have "\<dots> = written buf @ ([t, t + 1, t + 2, t + 3] @ [t + 4 .. row_offset + end_x * 4 - 1])"
      by (rule append_assoc)
    finally have w: "written (perf_block row_offset end_x r g b block_x buf)
        = written buf @ [t .. row_offset + end_x * 4 - 1]"
      unfolding upto_four [OF le] unfold .
    have f: "mem (perf_block row_offset end_x r g b block_x buf) a = mem buf a"
      if "a < t \<or> row_offset + end_x * 4 \<le> a" for a
    proof -
      from that True have "a < row_offset + (block_x + 1) * 4 \<or> row_offset + end_x * 4 \<le> a"
        by (auto simp: t_def)
      with ih have "mem (perf_block row_offset end_x r g b (block_x + 1) buf1) a = mem buf1 a"
        by blast
      also from that True have "mem buf1 a = mem buf a"
        by (auto simp: buf1_def store_pixel_mem t_def)
      finally show ?thesis unfolding unfold .
    qed
    from w f show ?thesis unfolding t_def by blast
  qed
qed

lemma perf_cols_spec:
  "g_map_w sc \<noteq> 0 \<Longrightarrow> g_map_h sc \<noteq> 0 \<Longrightarrow> 1 \<le> step \<Longrightarrow>
   \<exists>buf'. perf_cols map_data sc step row_offset dx dy x cur_x cur_y buf = Inr buf' \<and>
     written buf' = written buf @ [row_offset + x * 4 .. row_offset + g_ground_w sc * 4 - 1] \<and>
     (\<forall>a. a < row_offset + x * 4 \<or> row_offset + g_ground_w sc * 4 \<le> a \<longrightarrow> mem buf' a = mem buf a)"
proof (induction map_data sc step row_offset dx dy x cur_x cur_y buf rule: perf_cols.induct)
  case (1 map_data sc step row_offset dx dy x cur_x cur_y buf)
  let ?gw = "g_ground_w sc"
  show ?case
  proof (cases "x < ?gw")
    case False
    then have "perf_cols map_data sc step row_offset dx dy x cur_x cur_y buf = Inr buf"
      by (subst perf_cols.simps) simp
    moreover from False have "[row_offset + x * 4 .. row_offset + ?gw * 4 - 1] = []" by simp
    ultimately show ?thesis by auto
  next
    case True
    obtain src where mi: "map_index sc cur_x cur_y = Inr src"
      using map_index_defined [OF "1.prems"(1,2)] by blast
    define end_x where "end_x = (if x + step > ?gw then ?gw else x + step)"
    define buf1 where "buf1 = perf_block row_offset end_x (map_data src) (map_data (src + 1)) (map_data (src + 2)) x buf"
    have unfold: "perf_cols map_data sc step row_offset dx dy x cur_x cur_y buf
        = perf_cols map_data sc step row_offset dx dy (x + step)
            (cur_x + dx * real_of_int step) (cur_y + dy * real_of_int step) buf1"
      using True mi "1.prems"(3)
      by (subst perf_cols.simps) (simp add: buf1_def end_x_def Let_def)
    have guard: "x < ?gw \<and> 1 \<le> step" using True "1.prems"(3) by simp
    obtain buf' where run: "perf_cols map_data sc step row_offset dx dy (x + step)
            (cur_x + dx * real_of_int step) (cur_y + dy * real_of_int step) buf1 = Inr buf'"
      and wr: "written buf' = written buf1 @ [row_offset + (x + step) * 4 .. row_offset + ?gw * 4 - 1]"
      and frame: "\<And>a. a < row_offset + (x + step) * 4 \<or> row_offset + ?gw * 4 \<le> a \<Longrightarrow> mem buf' a = mem buf1 a"
      using "1.IH" [OF guard mi refl refl refl refl "1.prems"] unfolding buf1_def end_x_def by blast
    have wr1: "written buf1 = written buf @ [row_offset + x * 4 .. row_offset + end_x * 4 - 1]"
      and frame1: "\<And>a. a < row_offset + x * 4 \<or> row_offset + end_x * 4 \<le> a \<Longrightarrow> mem buf1 a = mem buf a"
      using perf_block_spec [of row_offset end_x "map_data src" "map_data (src + 1)" "map_data (src + 2)" x buf]
      unfolding buf1_def by blast+
    have ex: "x \<le> end_x" "end_x \<le> ?gw" "end_x \<le> x + step"
      using True "1.prems"(3) by (simp_all add: end_x_def)
    have tail: "[row_offset + (x + step) * 4 .. row_offset + ?gw * 4 - 1]
              = [row_offset + end_x * 4 - 1 + 1 .. row_offset + ?gw * 4 - 1]"
      by (cases "x + step > ?gw") (simp_all add: end_x_def)
    have "written buf' = (written buf @ [row_offset + x * 4 .. row_offset + end_x * 4 - 1])
              @ [row_offset + end_x * 4 - 1 + 1 .. row_offset + ?gw * 4 - 1]"
      unfolding wr wr1 tail ..
    also have "\<dots> = written buf @ ([row_offset + x * 4 .. row_offset + end_x * 4 - 1]
              @ [row_offset + end_x * 4 - 1 + 1 .. row_offset + ?gw * 4 - 1])"
      by (rule append_assoc)
    also have "[row_offset + x * 4 .. row_offset + end_x * 4 - 1]
              @ [row_offset + end_x * 4 - 1 + 1 .. row_offset + ?gw * 4 - 1]
              = [row_offset + x * 4 .. row_offset + ?gw * 4 - 1]"
      using ex by (intro upto_append) simp_all
    finally have w: "written buf' = written buf @ [row_offset + x * 4 .. row_offset + ?gw * 4 - 1]" .
    have f: "mem buf' a = mem buf a" if "a < row_offset + x * 4 \<or> row_offset + ?gw * 4 \<le> a" for a
    proof -
      from that "1.prems"(3) have "mem buf' a = mem buf1 a" by (intro frame) auto
      also from that ex have "mem buf1 a = mem buf a" by (intro frame1) auto
      finally show ?thesis .
    qed
    from run w f show ?thesis unfolding unfold by blast
  qed
qed

lemma smod_nonneg: "0 \<le> a \<Longrightarrow> 0 < b \<Longrightarrow> a smod b = a mod b" for a b :: int
  by (cases "a = 0") (simp_all add: signed_modulo_int_def)

lemma last_computed_row_nonpos: "y \<le> 0 \<Longrightarrow> last_computed_row sc l y = 0"
  by (subst last_computed_row.simps) simp

lemma last_computed_row_pos:
  "0 < y \<Longrightarrow> last_computed_row sc l y
     = (if row_computed sc l y then y else last_computed_row sc l (y - 1))"
  by (subst last_computed_row.simps) simp

lemma last_computed_row_bounds:
  "0 \<le> y \<Longrightarrow> 0 \<le> last_computed_row sc l y \<and> last_computed_row sc l y \<le> y"
proof (induction sc l y rule: last_computed_row.induct)
  case (1 sc l y)
  show ?case
  proof (cases "y \<le> 0")
    case True
    with "1.prems" show ?thesis by (simp add: last_computed_row_nonpos)
  next
    case False
    then have pos: "0 < y" by simp
    show ?thesis
    proof (cases "row_computed sc l y")
      case True
      with pos show ?thesis by (simp add: last_computed_row_pos)
    next
      case notc: False
      from "1.IH" [OF False notc] pos have "0 \<le> last_computed_row sc l (y - 1) \<and> last_computed_row sc l (y - 1) \<le> y - 1"
        by simp
      with pos notc show ?thesis by (simp add: last_computed_row_pos)
    qed
  qed
qed

lemma last_computed_row_is_computed:
  "0 \<le> y \<Longrightarrow> row_computed sc l (last_computed_row sc l y)"
proof (induction sc l y rule: last_computed_row.induct)
  case (1 sc l y)
  show ?case
  proof (cases "y \<le> 0")
    case True
    then show ?thesis by (simp add: last_computed_row_nonpos row_computed_def)
  next
    case False
    then have pos: "0 < y" by simp
    show ?thesis
    proof (cases "row_computed sc l y")
      case True
      with pos show ?thesis by (simp add: last_computed_row_pos)
    next
      case notc: False
      from "1.IH" [OF False notc] pos have "row_computed sc l (last_computed_row sc l (y - 1))"
        by simp
      with pos notc show ?thesis by (simp add: last_computed_row_pos)
    qed
  qed
qed

lemma last_computed_row_skipped:
  "0 \<le> y \<Longrightarrow> last_computed_row sc l y < r \<Longrightarrow> r \<le> y \<Longrightarrow> \<not> row_computed sc l r"
proof (induction sc l y rule: last_computed_row.induct)
  case (1 sc l y)
  show ?case
  proof (cases "y \<le> 0")
    case True
    with "1.prems" show ?thesis by (simp add: last_computed_row_nonpos)
  next
    case False
    then have pos: "0 < y" by simp
    show ?thesis
    proof (cases "row_computed sc l y")
      case True
      with pos "1.prems" show ?thesis by (simp add: last_computed_row_pos)
    next
      case notc: False
      with pos have eq: "last_computed_row sc l y = last_computed_row sc l (y - 1)"
        by (simp add: last_computed_row_pos)
      show ?thesis
      proof (cases "r = y")
        case True
        with notc show ?thesis by simp
      next
        case False
        with "1.prems" have "r \<le> y - 1" by simp
        with "1.IH" [OF \<open>\<not> y \<le> 0\<close> notc] pos "1.prems"(2) eq show ?thesis by simp
      qed
    qed
  qed
qed

lemma perf_rows_spec:
  assumes "g_map_w sc \<noteq> 0" and "g_map_h sc \<noteq> 0" and "0 < g_ground_w sc"
  shows "0 \<le> y \<Longrightarrow> y \<le> g_ground_h sc \<Longrightarrow>
   lcy = (if y = 0 then - 1 else last_computed_row sc l (y - 1)) \<Longrightarrow>
   \<exists>buf'. perf_rows map_data sc l y lcy buf = Inr buf' \<and>
     written buf' = written buf @ [y * g_ground_w sc * 4 .. g_ground_h sc * g_ground_w sc * 4 - 1] \<and>
     (\<forall>a. a < y * g_ground_w sc * 4 \<or> g_ground_h sc * g_ground_w sc * 4 \<le> a \<longrightarrow> mem buf' a = mem buf a) \<and>
     (\<forall>r k. y \<le> r \<and> r < g_ground_h sc \<and> 0 \<le> k \<and> k < g_ground_w sc * 4 \<longrightarrow>
        mem buf' (r * g_ground_w sc * 4 + k) = mem buf' (last_computed_row sc l r * g_ground_w sc * 4 + k))"
proof (induction "nat (g_ground_h sc - y)" arbitrary: y lcy buf)
  case 0
  let ?gw = "g_ground_w sc" and ?gh = "g_ground_h sc"
  from 0 have y: "y = ?gh" by simp
  have "perf_rows map_data sc l y lcy buf = Inr buf"
    by (subst perf_rows.simps) (simp add: y)
  moreover have "[y * ?gw * 4 .. ?gh * ?gw * 4 - 1] = []" by (simp add: y)
  ultimately show ?case using y by auto
next
  case (Suc m)
  let ?gw = "g_ground_w sc" and ?gh = "g_ground_h sc"
  from Suc.hyps(2) have lt: "y < ?gh" and m: "m = nat (?gh - (y + 1))" by simp_all
  define step where "step = row_step sc l y"
  have step1: "1 \<le> step" by (simp add: step_def row_step_ge_1)
  define ro where "ro = y * ?gw * 4"
  have nxt: "(y + 1) * ?gw * 4 = ro + ?gw * 4" by (simp add: ro_def algebra_simps)
  have le_end: "ro + ?gw * 4 \<le> ?gh * ?gw * 4"
    using row_start_mono [of ?gw "y + 1" ?gh] lt assms(3) unfolding nxt by simp
  have y1: "0 \<le> y + 1" "y + 1 \<le> ?gh" using Suc.prems(1) lt by simp_all
  have lcr_y: "last_computed_row sc l y = (if row_computed sc l y then y else lcy)"
  proof (cases "y = 0")
    case True
    then show ?thesis by (simp add: last_computed_row_nonpos row_computed_def)
  next
    case False
    with Suc.prems(1) have "0 < y" by simp
    with False Suc.prems(3) show ?thesis by (simp add: last_computed_row_pos)
  qed
  have lcy_nonneg: "0 \<le> lcy" if "0 < y"
    using that Suc.prems(3) last_computed_row_bounds [of "y - 1" sc l] by simp
  have cond: "(y > 0 \<and> y smod step \<noteq> 0 \<and> lcy \<ge> 0) \<longleftrightarrow> \<not> row_computed sc l y"
    using Suc.prems(1) step1 lcy_nonneg
    by (auto simp: row_computed_def step_def [symmetric] smod_nonneg)
  show ?case
  proof (cases "row_computed sc l y")
    case False
    with cond have c: "y > 0 \<and> y smod step \<noteq> 0 \<and> lcy \<ge> 0" by simp
    define buf1 where "buf1 = memcpy_bytes ro (lcy * ?gw * 4) (?gw * 4) 0 buf"
    have unfold: "perf_rows map_data sc l y lcy buf = perf_rows map_data sc l (y + 1) lcy buf1"
      using lt c by (subst perf_rows.simps) (simp add: step_def buf1_def ro_def Let_def)
    from False lcr_y have lcr: "last_computed_row sc l y = lcy" by simp
    have lcy_lt: "lcy < y" "0 \<le> lcy"
    proof -
      from last_computed_row_bounds [OF Suc.prems(1), of sc l] lcr
      have b: "0 \<le> lcy" "lcy \<le> y" by simp_all
      from last_computed_row_is_computed [OF Suc.prems(1), of sc l] lcr
      have "row_computed sc l lcy" by simp
      with False have "lcy \<noteq> y" by auto
      with b show "lcy < y" "0 \<le> lcy" by simp_all
    qed
    have disj: "lcy * ?gw * 4 + ?gw * 4 \<le> ro"
      using row_start_mono [of ?gw "lcy + 1" y] lcy_lt assms(3) by (simp add: ro_def algebra_simps)
    have "written buf1 = written buf @ [ro .. ro + ?gw * 4 - 1] \<and>
      (\<forall>a. a < ro \<or> ro + ?gw * 4 \<le> a \<longrightarrow> mem buf1 a = mem buf a) \<and>
      (\<forall>j. 0 \<le> j \<and> j < ?gw * 4 \<longrightarrow> mem buf1 (ro + j) = mem buf (lcy * ?gw * 4 + j))"
      using memcpy_bytes_spec [OF order_refl disj, where buf = buf]
      unfolding buf1_def add_0_right .
    then have wr1: "written buf1 = written buf @ [ro .. ro + ?gw * 4 - 1]"
      and frame1: "\<And>a. a < ro \<or> ro + ?gw * 4 \<le> a \<Longrightarrow> mem buf1 a = mem buf a"
      and copy: "\<And>j. 0 \<le> j \<and> j < ?gw * 4 \<Longrightarrow> mem buf1 (ro + j) = mem buf (lcy * ?gw * 4 + j)"
      by blast+
    have lcy': "lcy = (if y + 1 = 0 then - 1 else last_computed_row sc l (y + 1 - 1))"
      using Suc.prems(1) lcr by simp
    obtain buf' where run: "perf_rows map_data sc l (y + 1) lcy buf1 = Inr buf'"
      and wr: "written buf' = written buf1 @ [ro + ?gw * 4 .. ?gh * ?gw * 4 - 1]"
      and frame: "\<And>a. a < ro + ?gw * 4 \<or> ?gh * ?gw * 4 \<le> a \<Longrightarrow> mem buf' a = mem buf1 a"
      and rows: "\<And>r k. y + 1 \<le> r \<and> r < ?gh \<and> 0 \<le> k \<and> k < ?gw * 4 \<Longrightarrow>
        mem buf' (r * ?gw * 4 + k) = mem buf' (last_computed_row sc l r * ?gw * 4 + k)"
      using Suc.hyps(1) [OF m y1 lcy', of buf1] unfolding nxt by blast
    have "written buf' = (written buf @ [ro .. ro + ?gw * 4 - 1]) @ [ro + ?gw * 4 - 1 + 1 .. ?gh * ?gw * 4 - 1]"
      using wr unfolding wr1 by simp
    also have "\<dots> = written buf @ ([ro .. ro + ?gw * 4 - 1] @ [ro + ?gw * 4 - 1 + 1 .. ?gh * ?gw * 4 - 1])"
      by (rule append_assoc)
    also have "[ro .. ro + ?gw * 4 - 1] @ [ro + ?gw * 4 - 1 + 1 .. ?gh * ?gw * 4 - 1] = [ro .. ?gh * ?gw * 4 - 1]"
      using assms(3) le_end by (intro upto_append) simp_all
    finally have w: "written buf' = written buf @ [ro .. ?gh * ?gw * 4 - 1]" .
    have f: "mem buf' a = mem buf a" if "a < ro \<or> ?gh * ?gw * 4 \<le> a" for a
    proof -
      from that assms(3) le_end have "mem buf' a = mem buf1 a" by (intro frame) auto
      also from that le_end have "mem buf1 a = mem buf a" by (intro frame1) auto
      finally show ?thesis .
    qed
    have rw: "mem buf' (r * ?gw * 4 + k) = mem buf' (last_computed_row sc l r * ?gw * 4 + k)"
      if "y \<le> r \<and> r < ?gh \<and> 0 \<le> k \<and> k < ?gw * 4" for r k
    proof (cases "r = y")
      case True
      from that have "mem buf' (ro + k) = mem buf1 (ro + k)" by (intro frame) simp
      also from that have "\<dots> = mem buf (lcy * ?gw * 4 + k)" by (intro copy) simp
      finally have a: "mem buf' (ro + k) = mem buf (lcy * ?gw * 4 + k)" .
      from that disj have below: "lcy * ?gw * 4 + k < ro" by simp
      then have "mem buf' (lcy * ?gw * 4 + k) = mem buf1 (lcy * ?gw * 4 + k)"
        using assms(3) by (intro frame) simp
      also from below have "\<dots> = mem buf (lcy * ?gw * 4 + k)" by (intro frame1) simp
      finally have "mem buf' (lcy * ?gw * 4 + k) = mem buf (lcy * ?gw * 4 + k)" .
      with a show ?thesis by (simp add: True lcr ro_def)
    next
      case False
      with that have "y + 1 \<le> r \<and> r < ?gh \<and> 0 \<le> k \<and> k < ?gw * 4" by simp
      then show ?thesis by (rule rows)
    qed
    from run w f rw show ?thesis unfolding unfold ro_def by blast
  next
    case True
    with cond have c: "\<not> (y > 0 \<and> y smod step \<noteq> 0 \<and> lcy \<ge> 0)" by simp
    obtain lX lY dx dy where sl: "scanline sc y = (lX, lY, dx, dy)"
      by (cases "scanline sc y") auto
    have "\<exists>buf1. perf_cols map_data sc step ro dx dy 0 lX lY buf = Inr buf1 \<and>
      written buf1 = written buf @ [ro .. ro + ?gw * 4 - 1] \<and>
      (\<forall>a. a < ro \<or> ro + ?gw * 4 \<le> a \<longrightarrow> mem buf1 a = mem buf a)"
      using perf_cols_spec [OF assms(1,2) step1, of map_data ro dx dy 0 lX lY buf]
      unfolding mult_zero_left add_0_right .
    then obtain buf1 where cols: "perf_cols map_data sc step ro dx dy 0 lX lY buf = Inr buf1"
      and wr1: "written buf1 = written buf @ [ro .. ro + ?gw * 4 - 1]"
      and frame1: "\<And>a. a < ro \<or> ro + ?gw * 4 \<le> a \<Longrightarrow> mem buf1 a = mem buf a"
      by blast
    have d: "y = 0 \<or> y smod row_step sc l y = 0"
    proof (cases "y = 0")
      case True
      then show ?thesis by simp
    next
      case False
      with Suc.prems(1) have "0 < y" by simp
      with lcy_nonneg have "0 < y" "0 \<le> lcy" by simp_all
      with c show ?thesis by (simp add: step_def)
    qed
    have unfold: "perf_rows map_data sc l y lcy buf = perf_rows map_data sc l (y + 1) y buf1"
      using lt d sl cols by (subst perf_rows.simps) (auto simp: step_def ro_def Let_def)
    from True lcr_y have lcr: "last_computed_row sc l y = y" by simp
    have lcy': "y = (if y + 1 = 0 then - 1 else last_computed_row sc l (y + 1 - 1))"
      using Suc.prems(1) lcr by simp
    obtain buf' where run: "perf_rows map_data sc l (y + 1) y buf1 = Inr buf'"
      and wr: "written buf' = written buf1 @ [ro + ?gw * 4 .. ?gh * ?gw * 4 - 1]"
      and frame: "\<And>a. a < ro + ?gw * 4 \<or> ?gh * ?gw * 4 \<le> a \<Longrightarrow> mem buf' a = mem buf1 a"
      and rows: "\<And>r k. y + 1 \<le> r \<and> r < ?gh \<and> 0 \<le> k \<and> k < ?gw * 4 \<Longrightarrow>
        mem buf' (r * ?gw * 4 + k) = mem buf' (last_computed_row sc l r * ?gw * 4 + k)"
      using Suc.hyps(1) [OF m y1 lcy', of buf1] unfolding nxt by blast
    have "written buf' = (written buf @ [ro .. ro + ?gw * 4 - 1]) @ [ro + ?gw * 4 - 1 + 1 .. ?gh * ?gw * 4 - 1]"
      using wr unfolding wr1 by simp
    also have "\<dots> = written buf @ ([ro .. ro + ?gw * 4 - 1] @ [ro + ?gw * 4 - 1 + 1 .. ?gh * ?gw * 4 - 1])"
      by (rule append_assoc)
    also have "[ro .. ro + ?gw * 4 - 1] @ [ro + ?gw * 4 - 1 + 1 .. ?gh * ?gw * 4 - 1] = [ro .. ?gh * ?gw * 4 - 1]"
      using assms(3) le_end by (intro upto_append) simp_all
    finally have w: "written buf' = written buf @ [ro .. ?gh * ?gw * 4 - 1]" .
    have f: "mem buf' a = mem buf a" if "a < ro \<or> ?gh * ?gw * 4 \<le> a" for a
    proof -
      from that assms(3) le_end have "mem buf' a = mem buf1 a" by (intro frame) auto
      also from that le_end have "mem buf1 a = mem buf a" by (intro frame1) auto
      finally show ?thesis .
    qed
    have rw: "mem buf' (r * ?gw * 4 + k) = mem buf' (last_computed_row sc l r * ?gw * 4 + k)"
      if "y \<le> r \<and> r < ?gh \<and> 0 \<le> k \<and> k < ?gw * 4" for r k
    proof (cases "r = y")
      case True
      then show ?thesis by (simp add: lcr)
    next
      case False
      with that have "y + 1 \<le> r \<and> r < ?gh \<and> 0 \<le> k \<and> k < ?gw * 4" by simp
      then show ?thesis by (rule rows)
    qed
    from run w f rw show ?thesis unfolding unfold ro_def by blast
  qed
qed

text \<open>
  C7. For a positive destination width and non-zero source dimensions,
  \<open>render_ground_performance\<close> returns a buffer whose write log is
  \<open>0, 1, \<dots>, dstW * dstH * 4 - 1\<close> (every row is written, computed or copied). For every
  row \<open>y > 0\<close> whose index is not a multiple of its step, the most recently computed
  row \<open>r\<close> at or above it lies strictly above it (\<open>r\<close> is computed, no row from \<open>r + 1\<close> to
  \<open>y\<close> is), and the \<open>dstW * 4\<close> bytes of row \<open>y\<close> equal those of row \<open>r\<close>.
\<close>

theorem render_ground_performance_copies_rows:
  assumes "0 < ground_w" and "map_w \<noteq> 0" and "map_h \<noteq> 0"
  shows "let sc = \<lparr>g_ground_w = ground_w, g_ground_h = ground_h, g_map_w = map_w, g_map_h = map_h,
                   g_camera_x = camera_x, g_camera_y = camera_y, g_cos_a = cos_a, g_sin_a = sin_a,
                   g_sh_focal = sh_focal, g_tan_f = tan_f\<rparr>;
             l = \<lparr>l_base_res = base_res, l_dynamic_res = dynamic_res, l_layered_res = layered_res,
                  l_state_move = state_move, l_state_rot = state_rot, l_tilt = tilt\<rparr>
         in \<exists>buf'.
              render_ground_performance ground_pixels map_data ground_w ground_h map_w map_h
                camera_x camera_y cos_a sin_a sh_focal tan_f
                base_res dynamic_res layered_res state_move state_rot tilt = Inr buf' \<and>
              written buf' = [0 .. ground_h * ground_w * 4 - 1] \<and>
              (\<forall>a. a < 0 \<or> ground_h * ground_w * 4 \<le> a \<longrightarrow> mem buf' a = ground_pixels a) \<and>
              (\<forall>y. 0 < y \<and> y < ground_h \<and> y mod row_step sc l y \<noteq> 0 \<longrightarrow>
                 0 \<le> last_computed_row sc l y \<and> last_computed_row sc l y < y \<and>
                 row_computed sc l (last_computed_row sc l y) \<and>
                 (\<forall>r'. last_computed_row sc l y < r' \<and> r' \<le> y \<longrightarrow> \<not> row_computed sc l r') \<and>
                 (\<forall>k. 0 \<le> k \<and> k < ground_w * 4 \<longrightarrow>
                    mem buf' (y * ground_w * 4 + k) = mem buf' (last_computed_row sc l y * ground_w * 4 + k)))"
proof -
  define sc where "sc = \<lparr>g_ground_w = ground_w, g_ground_h = ground_h, g_map_w = map_w, g_map_h = map_h,
                   g_camera_x = camera_x, g_camera_y = camera_y, g_cos_a = cos_a, g_sin_a = sin_a,
                   g_sh_focal = sh_focal, g_tan_f = tan_f\<rparr>"
  define l where "l = \<lparr>l_base_res = base_res, l_dynamic_res = dynamic_res, l_layered_res = layered_res,
                  l_state_move = state_move, l_state_rot = state_rot, l_tilt = tilt\<rparr>"
  define buf0 where "buf0 = \<lparr>mem = ground_pixels, written = []\<rparr>"
  have f: "g_ground_w sc = ground_w" "g_ground_h sc = ground_h" "g_map_w sc = map_w" "g_map_h sc = map_h"
    by (simp_all add: sc_def)
  have call: "render_ground_performance ground_pixels map_data ground_w ground_h map_w map_h
                camera_x camera_y cos_a sin_a sh_focal tan_f
                base_res dynamic_res layered_res state_move state_rot tilt
            = perf_rows map_data sc l 0 (- 1) buf0"
    by (simp add: render_ground_performance_def sc_def l_def buf0_def)
  have skipped: "0 \<le> last_computed_row sc l y \<and> last_computed_row sc l y < y \<and>
                 row_computed sc l (last_computed_row sc l y) \<and>
                 (\<forall>r'. last_computed_row sc l y < r' \<and> r' \<le> y \<longrightarrow> \<not> row_computed sc l r')"
    if "0 < y" "y mod row_step sc l y \<noteq> 0" for y
  proof -
    from that have y0: "0 \<le> y" and nc: "\<not> row_computed sc l y" by (simp_all add: row_computed_def)
    from last_computed_row_bounds [OF y0, of sc l]
    have b: "0 \<le> last_computed_row sc l y" "last_computed_row sc l y \<le> y" by simp_all
    have rc: "row_computed sc l (last_computed_row sc l y)"
      by (rule last_computed_row_is_computed [OF y0])
    with nc have "last_computed_row sc l y \<noteq> y" by auto
    with b have "last_computed_row sc l y < y" by simp
    note b(1) this rc
    moreover have "\<forall>r'. last_computed_row sc l y < r' \<and> r' \<le> y \<longrightarrow> \<not> row_computed sc l r'"
      using last_computed_row_skipped [OF y0] by blast
    ultimately show ?thesis by blast
  qed
  have "\<exists>buf'. perf_rows map_data sc l 0 (- 1) buf0 = Inr buf' \<and>
     written buf' = [0 .. ground_h * ground_w * 4 - 1] \<and>
     (\<forall>a. a < 0 \<or> ground_h * ground_w * 4 \<le> a \<longrightarrow> mem buf' a = ground_pixels a) \<and>
     (\<forall>r k. 0 \<le> r \<and> r < ground_h \<and> 0 \<le> k \<and> k < ground_w * 4 \<longrightarrow>
        mem buf' (r * ground_w * 4 + k) = mem buf' (last_computed_row sc l r * ground_w * 4 + k))"
  proof (cases "0 \<le> ground_h")
    case True
    have pre: "g_map_w sc \<noteq> 0" "g_map_h sc \<noteq> 0" "0 < g_ground_w sc"
      using assms by (simp_all add: f)
    have "(0::int) \<le> 0" "0 \<le> g_ground_h sc" "- 1 = (if (0::int) = 0 then - 1 else last_computed_row sc l (0 - 1))"
      using True by (simp_all add: f)
    from perf_rows_spec [OF pre this, of map_data buf0]
    show ?thesis unfolding f by (simp add: buf0_def)
  next
    case False
    then have "perf_rows map_data sc l 0 (- 1) buf0 = Inr buf0"
      by (subst perf_rows.simps) (simp add: f)
    moreover from False assms(1) have "ground_h * ground_w * 4 < 0"
      by (simp add: mult_neg_pos)
    then have "[0 .. ground_h * ground_w * 4 - 1] = []" by simp
    ultimately show ?thesis using False by (auto simp: buf0_def)
  qed
  then obtain buf' where run: "perf_rows map_data sc l 0 (- 1) buf0 = Inr buf'"
    and wr: "written buf' = [0 .. ground_h * ground_w * 4 - 1]"
    and frame: "\<forall>a. a < 0 \<or> ground_h * ground_w * 4 \<le> a \<longrightarrow> mem buf' a = ground_pixels a"
    and rows: "\<And>r k. 0 \<le> r \<and> r < ground_h \<and> 0 \<le> k \<and> k < ground_w * 4 \<Longrightarrow>
        mem buf' (r * ground_w * 4 + k) = mem buf' (last_computed_row sc l r * ground_w * 4 + k)"
    by blast
  have copy: "0 \<le> last_computed_row sc l y \<and> last_computed_row sc l y < y \<and>
                 row_computed sc l (last_computed_row sc l y) \<and>
                 (\<forall>r'. last_computed_row sc l y < r' \<and> r' \<le> y \<longrightarrow> \<not> row_computed sc l r') \<and>
                 (\<forall>k. 0 \<le> k \<and> k < ground_w * 4 \<longrightarrow>
                    mem buf' (y * ground_w * 4 + k) = mem buf' (last_computed_row sc l y * ground_w * 4 + k))"
    if "0 < y \<and> y < ground_h \<and> y mod row_step sc l y \<noteq> 0" for y
    using that skipped [of y] rows [of y] by simp
  from run wr frame copy show ?thesis
    unfolding Let_def sc_def [symmetric] l_def [symmetric] call by blast
qed

theorem render_ground_performance_copies_rows_witness:
  "(0::int) < 1 \<and> (2::int) \<noteq> 0 \<and>
   written (projr (render_ground_performance blank checker 1 2 2 2 0 0 1 0 1 1 2 0 0 0 0 0))
     = [0, 1, 2, 3, 4, 5, 6, 7] \<and>
   mem (projr (render_ground_performance blank checker 1 2 2 2 0 0 1 0 1 1 2 0 0 0 0 0)) (1 * 1 * 4 + 2)
     = mem (projr (render_ground_performance blank checker 1 2 2 2 0 0 1 0 1 1 2 0 0 0 0 0)) (0 * 1 * 4 + 2)"
proof -
  have h: "(0::int) < 1" "(2::int) \<noteq> 0" by simp_all
  define sc where "sc = \<lparr>g_ground_w = 1, g_ground_h = 2, g_map_w = 2, g_map_h = 2,
                   g_camera_x = 0, g_camera_y = 0, g_cos_a = 1, g_sin_a = 0,
                   g_sh_focal = 1, g_tan_f = 1\<rparr>"
  define l where "l = \<lparr>l_base_res = 2, l_dynamic_res = 0, l_layered_res = 0,
                  l_state_move = 0, l_state_rot = 0, l_tilt = 0\<rparr>"
  from render_ground_performance_copies_rows [OF h(1) h(2) h(2), where ground_pixels = blank
      and map_data = checker and ground_h = 2 and camera_x = 0 and camera_y = 0 and cos_a = 1 and sin_a = 0
      and sh_focal = 1 and tan_f = 1 and base_res = 2 and dynamic_res = 0 and layered_res = 0
      and state_move = 0 and state_rot = 0 and tilt = 0]
  obtain buf' where run: "render_ground_performance blank checker 1 2 2 2 0 0 1 0 1 1 2 0 0 0 0 0 = Inr buf'"
    and wr: "written buf' = [0 .. 2 * 1 * 4 - 1]"
    and copy: "\<And>y. 0 < y \<and> y < 2 \<and> y mod row_step sc l y \<noteq> 0 \<Longrightarrow>
                 (\<forall>k. 0 \<le> k \<and> k < 1 * 4 \<longrightarrow>
                    mem buf' (y * 1 * 4 + k) = mem buf' (last_computed_row sc l y * 1 * 4 + k))"
    unfolding Let_def sc_def l_def by blast
  have st: "row_step sc l 1 = 2"
    by (simp add: row_step_def sc_def l_def Let_def)
  have lc: "last_computed_row sc l 1 = 0"
    by (simp add: last_computed_row_pos last_computed_row_nonpos row_computed_def st)
  from copy [of 1] have "\<forall>k. 0 \<le> k \<and> k < 1 * 4 \<longrightarrow>
                    mem buf' (1 * 1 * 4 + k) = mem buf' (0 * 1 * 4 + k)"
    by (simp add: st lc)
  then have "(0::int) \<le> 2 \<and> (2::int) < 1 * 4 \<longrightarrow> mem buf' (1 * 1 * 4 + 2) = mem buf' (0 * 1 * 4 + 2)"
    by (rule spec)
  then have "mem buf' (1 * 1 * 4 + 2) = mem buf' (0 * 1 * 4 + 2)"
    by simp
  moreover from wr have "written buf' = [0, 1, 2, 3, 4, 5, 6, 7]" by (simp add: upto.simps)
  ultimately show ?thesis using run by simp
qed

end
